theory Spec2Isabelle
  imports Main
begin

section \<open>The store: system heap, strategies, nodes and deque objects\<close>

text \<open>
  Pointers are natural numbers and \<open>0\<close> is \<^verbatim>\<open>nullptr\<close>. A
  \<^verbatim>\<open>std::shared_ptr<alloc_strategy_t>\<close> is the number of the strategy object it
  refers to, \<open>0\<close> being the empty handle. Every strategy object of the model is a
  \<^verbatim>\<open>stupid_strategy_t\<close>, the only concrete strategy of the repository, and it stays
  alive for the whole run (its creator keeps a handle on it), so that its tracking list can
  be inspected at any time.
\<close>

type_synonym addr = nat

text \<open>\<^verbatim>\<open>struct node_t { node_t *next, *prev; T data; }\<close>\<close>

record 'a node_t =
  next_node :: addr
  prev_node :: addr
  data :: 'a

text \<open>\<^verbatim>\<open>single_allocator_t<T>\<close>: its only member is the strategy handle.\<close>

record single_allocator_t =
  allocStrategy :: nat

text \<open>\<^verbatim>\<open>deque_t<T>\<close>: \<^verbatim>\<open>node_t *start, *tail; single_allocator_t<node_t> allocator;\<close>\<close>

record deque_t =
  start :: addr
  tail :: addr
  allocator :: single_allocator_t

text \<open>
  The whole program state. \<open>blocks\<close> are the live blocks of the C library's heap with
  their sizes, \<open>avail\<close> the bytes that \<^verbatim>\<open>malloc\<close> and \<^verbatim>\<open>operator new\<close> can
  still hand out, \<open>allocEls\<close> the elements of the tracking list of each
  \<^verbatim>\<open>stupid_strategy_t\<close>, \<open>mem\<close> the node objects that
  have been constructed in live storage, and \<open>deques\<close> the \<^verbatim>\<open>deque_t\<close> objects by
  location, so that two references to the same deque are the same number.
\<close>

record 'a world =
  blocks :: "(addr \<times> nat) list"
  avail :: nat
  allocEls :: "nat \<Rightarrow> addr list"
  mem :: "addr \<rightharpoonup> 'a node_t"
  deques :: "nat \<Rightarrow> deque_t"

text \<open>
  Undefined behaviour of the C++ program is a \<open>Fault\<close>; a thrown
  \<^verbatim>\<open>std::exception(msg)\<close> carries its message and the state at the throw. A
  \<^verbatim>\<open>std::bad_alloc\<close>, which has no message of the program's, carries its name.
\<close>

datatype fault = NullStrategy | ConstructAtNull | InvalidAccess | InvalidFree

datatype ('r, 'a) result = Ok 'r "'a world" | Thrown string "'a world" | Fault fault

definition result_bind ::
  "('r, 'a) result \<Rightarrow> ('r \<Rightarrow> 'a world \<Rightarrow> ('s, 'a) result) \<Rightarrow> ('s, 'a) result" where
  "result_bind r f = (case r of Ok x w \<Rightarrow> f x w | Thrown s w \<Rightarrow> Thrown s w | Fault e \<Rightarrow> Fault e)"

subsection \<open>The C library: malloc and free\<close>

text \<open>
  \<^verbatim>\<open>malloc\<close> and \<^verbatim>\<open>free\<close> are not code of the repository. \<^verbatim>\<open>malloc(n)\<close>
  returns the null pointer when fewer than \<open>n\<close> bytes are available, and otherwise a
  block of \<open>n\<close> bytes at the lowest address that is not live (so addresses of freed
  blocks are reused). \<^verbatim>\<open>free(NULL)\<close> does nothing; freeing a pointer that is not a
  live block is undefined behaviour.
\<close>

definition fresh_addr :: "addr list \<Rightarrow> addr" where
  "fresh_addr used = hd (filter (\<lambda>a. a \<notin> set used) [1..<length used + 2])"

definition malloc :: "nat \<Rightarrow> 'a world \<Rightarrow> addr \<times> 'a world" where
  "malloc n w =
     (if n \<le> avail w
      then (let p = fresh_addr (map fst (blocks w))
            in (p, w\<lparr>blocks := blocks w @ [(p, n)], avail := avail w - n\<rparr>))
      else (0, w))"

definition free :: "addr \<Rightarrow> 'a world \<Rightarrow> (unit, 'a) result" where
  "free p w =
     (if p = 0 then Ok () w
      else case map_of (blocks w) p of
        None \<Rightarrow> Fault InvalidFree
      | Some n \<Rightarrow> Ok () (w\<lparr>blocks := filter (\<lambda>b. fst b \<noteq> p) (blocks w),
                            avail := avail w + n,
                            mem := (mem w)(p := None)\<rparr>))"

subsection \<open>The standard library: the list of void pointers\<close>

text \<open>
  \<^verbatim>\<open>std::list<void *>\<close> is not code of the repository either. Its
  \<^verbatim>\<open>push_back\<close> allocates a list node with \<^verbatim>\<open>operator new\<close>, which takes its
  bytes from the same memory as \<^verbatim>\<open>malloc\<close> and throws \<^verbatim>\<open>std::bad_alloc\<close> when
  they are not available; the list is then unchanged. \<^verbatim>\<open>erase\<close> gives the bytes of
  the node back. A list node is two links and the element, 24 bytes on a 64-bit target.
  The program holds no pointer to a list node, so the model gives them no address: the
  list is the sequence of its elements, and its nodes are counted in \<open>avail\<close> only.
\<close>

definition sizeof_list_node :: nat where
  "sizeof_list_node = 24"

definition list_push_back :: "nat \<Rightarrow> addr \<Rightarrow> 'a world \<Rightarrow> (unit, 'a) result" where
  "list_push_back s el w =
     (if sizeof_list_node \<le> avail w
      then Ok () (w\<lparr>avail := avail w - sizeof_list_node,
                    allocEls := (allocEls w)(s := allocEls w s @ [el])\<rparr>)
      else Thrown ''std::bad_alloc'' w)"

definition list_erase :: "nat \<Rightarrow> addr \<Rightarrow> 'a world \<Rightarrow> 'a world" where
  "list_erase s el w =
     w\<lparr>avail := avail w + sizeof_list_node,
       allocEls := (allocEls w)(s := remove1 el (allocEls w s))\<rparr>"

subsection \<open>stupid\_strategy\_t\<close>

text \<open>
  \<^verbatim>\<open>void *alloc(size_t numOfBytes) { void *el = malloc(numOfBytes);
  allocEls.push_back(el); return el; }\<close>
  The result of \<^verbatim>\<open>malloc\<close> is not checked, and nothing is caught: when
  \<^verbatim>\<open>push_back\<close> throws, the block that \<^verbatim>\<open>malloc\<close> has just returned stays
  allocated and is recorded nowhere.
\<close>

definition stupid_strategy_alloc :: "nat \<Rightarrow> nat \<Rightarrow> 'a world \<Rightarrow> (addr, 'a) result" where
  "stupid_strategy_alloc s numOfBytes w =
     (let (el, w1) = malloc numOfBytes w
      in result_bind (list_push_back s el w1) (\<lambda>_ w2. Ok el w2))"

text \<open>
  \<^verbatim>\<open>void dealloc(void *ptr) { auto el = std::find(allocEls.cbegin(), allocEls.cend(), ptr);
  if (el != allocEls.cend()) { free(*el); allocEls.erase(el); } }\<close>
\<close>

definition stupid_strategy_dealloc :: "nat \<Rightarrow> addr \<Rightarrow> 'a world \<Rightarrow> (unit, 'a) result" where
  "stupid_strategy_dealloc s ptr w =
     (if ptr \<in> set (allocEls w s)
      then result_bind (free ptr w) (\<lambda>_ w1. Ok () (list_erase s ptr w1))
      else Ok () w)"

subsection \<open>single\_allocator\_t\<close>

text \<open>
  \<^verbatim>\<open>sizeof(node_t)\<close> for \<^verbatim>\<open>deque_t<int>\<close>, the instantiation of
  \<^verbatim>\<open>main.cpp\<close>, on a 64-bit target: two pointers and an \<^verbatim>\<open>int\<close>, padded. It
  is the size of a node of the tracking list, so that there is room for the list node
  whenever \<^verbatim>\<open>malloc\<close> has none for a node of the deque.
\<close>

definition sizeof_node_t :: nat where
  "sizeof_node_t = 24"

text \<open>
  Reading a node through a pointer: the null pointer and a pointer to storage that holds
  no constructed node give nothing.
\<close>

definition get_node :: "'a world \<Rightarrow> addr \<Rightarrow> 'a node_t option" where
  "get_node w p = (if p = 0 then None else mem w p)"

text \<open>
  The constructors of \<^verbatim>\<open>node_t\<close>, as functions of the state in which they run:
  \<^verbatim>\<open>node_t(data, prev, next)\<close> and the implicit copy and move constructors, which read
  the node they are given.
\<close>

definition node_ctor :: "'a \<Rightarrow> addr \<Rightarrow> addr \<Rightarrow> 'a world \<Rightarrow> 'a node_t option" where
  "node_ctor newData newPrev newNext w =
     Some \<lparr>next_node = newNext, prev_node = newPrev, data = newData\<rparr>"

definition node_copy_ctor :: "addr \<Rightarrow> 'a world \<Rightarrow> 'a node_t option" where
  "node_copy_ctor src w = get_node w src"

text \<open>
  \<^verbatim>\<open>T *alloc(Args&&... constructorArgs) { T* ptr = static_cast<T*>(allocStrategy->alloc(sizeof(T)));
  new (ptr) T(std::forward<Args>(constructorArgs)...); return ptr; }\<close>
  The strategy is called first and the constructor runs afterwards, in the storage it
  returned; the pointer is not checked, and an exception of the strategy passes through.
\<close>

definition single_allocator_alloc ::
  "single_allocator_t \<Rightarrow> ('a world \<Rightarrow> 'a node_t option) \<Rightarrow> 'a world \<Rightarrow> (addr, 'a) result" where
  "single_allocator_alloc a ctor w =
     (if allocStrategy a = 0 then Fault NullStrategy
      else result_bind (stupid_strategy_alloc (allocStrategy a) sizeof_node_t w)
             (\<lambda>ptr w1.
                if ptr = 0 then Fault ConstructAtNull
                else case ctor w1 of
                  None \<Rightarrow> Fault InvalidAccess
                | Some n \<Rightarrow> Ok ptr (w1\<lparr>mem := (mem w1)(ptr \<mapsto> n)\<rparr>)))"

text \<open>
  \<^verbatim>\<open>void dealloc(T *ptr) { ptr->~T(); allocStrategy->dealloc(ptr); }\<close>
  The element type is trivially destructible, as \<^verbatim>\<open>int\<close> in \<^verbatim>\<open>main.cpp\<close>, so the
  destructor call leaves the store as it is and the node's storage keeps its contents until
  it is freed.
\<close>

definition single_allocator_dealloc ::
  "single_allocator_t \<Rightarrow> addr \<Rightarrow> 'a world \<Rightarrow> (unit, 'a) result" where
  "single_allocator_dealloc a ptr w =
     (if allocStrategy a = 0 then Fault NullStrategy
      else stupid_strategy_dealloc (allocStrategy a) ptr w)"

section \<open>deque\_t\<close>

text \<open>Writes to the members of the deque object at location \<open>this\<close>, and to the links of a node.\<close>

definition set_start :: "nat \<Rightarrow> addr \<Rightarrow> 'a world \<Rightarrow> 'a world" where
  "set_start this p w = w\<lparr>deques := (deques w)(this := (deques w this)\<lparr>start := p\<rparr>)\<rparr>"

definition set_tail :: "nat \<Rightarrow> addr \<Rightarrow> 'a world \<Rightarrow> 'a world" where
  "set_tail this p w = w\<lparr>deques := (deques w)(this := (deques w this)\<lparr>tail := p\<rparr>)\<rparr>"

definition set_allocator :: "nat \<Rightarrow> single_allocator_t \<Rightarrow> 'a world \<Rightarrow> 'a world" where
  "set_allocator this a w = w\<lparr>deques := (deques w)(this := (deques w this)\<lparr>allocator := a\<rparr>)\<rparr>"

definition set_next :: "addr \<Rightarrow> addr \<Rightarrow> 'a world \<Rightarrow> (unit, 'a) result" where
  "set_next p v w =
     (case get_node w p of
        None \<Rightarrow> Fault InvalidAccess
      | Some n \<Rightarrow> Ok () (w\<lparr>mem := (mem w)(p \<mapsto> n\<lparr>next_node := v\<rparr>)\<rparr>))"

definition set_prev :: "addr \<Rightarrow> addr \<Rightarrow> 'a world \<Rightarrow> (unit, 'a) result" where
  "set_prev p v w =
     (case get_node w p of
        None \<Rightarrow> Fault InvalidAccess
      | Some n \<Rightarrow> Ok () (w\<lparr>mem := (mem w)(p \<mapsto> n\<lparr>prev_node := v\<rparr>)\<rparr>))"

subsection \<open>FreeList and CopyList\<close>

text \<open>
  \<^verbatim>\<open>for (node_t *node = begin; node != nullptr; ) { node_t *next = node->next;
  allocator.dealloc(node); node = next; }\<close>
  The loop need not end (on a cyclic chain of nodes the strategy does not track), so the
  function is partial: \<open>None\<close> is a run that never returns.
\<close>

partial_function (option) FreeList ::
  "addr \<Rightarrow> single_allocator_t \<Rightarrow> 'a world \<Rightarrow> (unit, 'a) result option" where
  "FreeList node a w =
     (if node = 0 then Some (Ok () w)
      else case get_node w node of
        None \<Rightarrow> Some (Fault InvalidAccess)
      | Some n \<Rightarrow>
          (case single_allocator_dealloc a node w of
             Ok u w1 \<Rightarrow> FreeList (next_node n) a w1
           | Thrown s w1 \<Rightarrow> Some (Thrown s w1)
           | Fault e \<Rightarrow> Some (Fault e)))"

text \<open>
  The loop of \<^verbatim>\<open>CopyList\<close>, which \<^verbatim>\<open>ChangeAllocator\<close> repeats word for word
  (with \<^verbatim>\<open>std::move\<close> around the data, which is a copy for the values of the model):
  \<^verbatim>\<open>for (node = ...; node != nullptr; node = node->next, prev = prev->next) {
  node_t *tmp = allocator.alloc(node->data, prev, nullptr); prev->next = tmp; }\<close>
  It returns the final \<^verbatim>\<open>prev\<close>.
\<close>

partial_function (option) copy_loop ::
  "nat \<Rightarrow> addr \<Rightarrow> addr \<Rightarrow> 'a world \<Rightarrow> (addr, 'a) result option" where
  "copy_loop this node prev w =
     (if node = 0 then Some (Ok prev w)
      else case get_node w node of
        None \<Rightarrow> Some (Fault InvalidAccess)
      | Some n \<Rightarrow>
          (case single_allocator_alloc (allocator (deques w this)) (node_ctor (data n) prev 0) w of
             Ok tmp w1 \<Rightarrow>
               (case set_next prev tmp w1 of
                  Ok u w2 \<Rightarrow>
                    (case get_node w2 node of
                       None \<Rightarrow> Some (Fault InvalidAccess)
                     | Some n2 \<Rightarrow>
                         (case get_node w2 prev of
                            None \<Rightarrow> Some (Fault InvalidAccess)
                          | Some pn \<Rightarrow> copy_loop this (next_node n2) (next_node pn) w2))
                | Thrown s w2 \<Rightarrow> Some (Thrown s w2)
                | Fault e \<Rightarrow> Some (Fault e))
           | Thrown s w1 \<Rightarrow> Some (Thrown s w1)
           | Fault e \<Rightarrow> Some (Fault e)))"

text \<open>Sequencing a possibly non-returning call with the rest of a function.\<close>

definition loop_bind ::
  "('r, 'a) result option \<Rightarrow> ('r \<Rightarrow> 'a world \<Rightarrow> ('s, 'a) result option) \<Rightarrow> ('s, 'a) result option" where
  "loop_bind m f =
     (case m of
        None \<Rightarrow> None
      | Some (Ok x w) \<Rightarrow> f x w
      | Some (Thrown s w) \<Rightarrow> Some (Thrown s w)
      | Some (Fault e) \<Rightarrow> Some (Fault e))"

text \<open>
  The code after the first allocation, shared by \<^verbatim>\<open>CopyList\<close> and
  \<^verbatim>\<open>ChangeAllocator\<close>: \<^verbatim>\<open>node_t *prev = start; for (node = first; ...) ...;
  tail = prev; prev->next = nullptr;\<close>
\<close>

definition copy_rest :: "nat \<Rightarrow> addr \<Rightarrow> 'a world \<Rightarrow> (unit, 'a) result option" where
  "copy_rest this first w =
     loop_bind (copy_loop this first (start (deques w this)) w)
       (\<lambda>prev w1. Some (set_next prev 0 (set_tail this prev w1)))"

text \<open>
  \<^verbatim>\<open>void CopyList(node_t const *beginToCopy)\<close>: the first node is built by the implicit
  copy constructor of \<^verbatim>\<open>node_t\<close> from \<^verbatim>\<open>*beginToCopy\<close>, links included, and the
  loop starts at \<^verbatim>\<open>beginToCopy->next\<close>.
\<close>

definition CopyList :: "nat \<Rightarrow> addr \<Rightarrow> 'a world \<Rightarrow> (unit, 'a) result option" where
  "CopyList this beginToCopy w =
     (if beginToCopy = 0 then Some (Ok () (set_tail this 0 (set_start this 0 w)))
      else case single_allocator_alloc (allocator (deques w this)) (node_copy_ctor beginToCopy) w of
        Ok p w1 \<Rightarrow>
          (let w2 = set_start this p w1
           in case get_node w2 beginToCopy of
                None \<Rightarrow> Some (Fault InvalidAccess)
              | Some b \<Rightarrow> copy_rest this (next_node b) w2)
      | Thrown s w1 \<Rightarrow> Some (Thrown s w1)
      | Fault e \<Rightarrow> Some (Fault e))"

subsection \<open>Constructors, assignment, destructor\<close>

text \<open>\<^verbatim>\<open>deque_t(strategy) : start(nullptr), tail(nullptr), allocator(strategy) {}\<close>\<close>

definition deque_ctor :: "nat \<Rightarrow> nat \<Rightarrow> 'a world \<Rightarrow> 'a world" where
  "deque_ctor this strategy w =
     w\<lparr>deques := (deques w)(this := \<lparr>start = 0, tail = 0, allocator = \<lparr>allocStrategy = strategy\<rparr>\<rparr>)\<rparr>"

text \<open>
  \<^verbatim>\<open>deque_t(deque_t const &lhs) : allocator(lhs.allocator) { if (lhs.start == nullptr)
  { start = nullptr; tail = nullptr; return; } CopyList(lhs.start); }\<close>
\<close>

definition copy_ctor :: "nat \<Rightarrow> nat \<Rightarrow> 'a world \<Rightarrow> (unit, 'a) result option" where
  "copy_ctor this lhs w =
     (let w1 = set_allocator this (allocator (deques w lhs)) w
      in if start (deques w1 lhs) = 0 then Some (Ok () (set_tail this 0 (set_start this 0 w1)))
         else CopyList this (start (deques w1 lhs)) w1)"

text \<open>
  \<^verbatim>\<open>deque_t(deque_t const &lhs, std::shared_ptr<alloc_strategy_t> const &strategy) :
  allocator(strategy) { CopyList(lhs.start); }\<close>
\<close>

definition copy_ctor_strategy :: "nat \<Rightarrow> nat \<Rightarrow> nat \<Rightarrow> 'a world \<Rightarrow> (unit, 'a) result option" where
  "copy_ctor_strategy this lhs strategy w =
     (let w1 = set_allocator this \<lparr>allocStrategy = strategy\<rparr> w
      in CopyList this (start (deques w1 lhs)) w1)"

text \<open>
  Moving a \<^verbatim>\<open>single_allocator_t\<close> moves its \<^verbatim>\<open>shared_ptr\<close>: the source handle is
  emptied and the destination then receives the strategy (a temporary takes it in
  between, so that moving an allocator onto itself leaves it as it was).
\<close>

definition move_allocator :: "nat \<Rightarrow> nat \<Rightarrow> 'a world \<Rightarrow> 'a world" where
  "move_allocator this rhs w =
     (let a = allocator (deques w rhs)
      in set_allocator this a (set_allocator rhs \<lparr>allocStrategy = 0\<rparr> w))"

text \<open>
  \<^verbatim>\<open>deque_t(deque_t &&rhs) : start(rhs.start), tail(rhs.tail),
  allocator(std::move(rhs.allocator)) { rhs.start = nullptr; rhs.tail = nullptr; }\<close>
\<close>

definition move_ctor :: "nat \<Rightarrow> nat \<Rightarrow> 'a world \<Rightarrow> 'a world" where
  "move_ctor this rhs w =
     (let w1 = set_start this (start (deques w rhs)) w;
          w2 = set_tail this (tail (deques w1 rhs)) w1;
          w3 = move_allocator this rhs w2;
          w4 = set_start rhs 0 w3
      in set_tail rhs 0 w4)"

text \<open>
  \<^verbatim>\<open>void operator=(deque_t const &lhs) { FreeList(start, allocator);
  allocator = lhs.allocator; CopyList(lhs.start); }\<close>
\<close>

definition copy_assign :: "nat \<Rightarrow> nat \<Rightarrow> 'a world \<Rightarrow> (unit, 'a) result option" where
  "copy_assign this lhs w =
     loop_bind (FreeList (start (deques w this)) (allocator (deques w this)) w)
       (\<lambda>_ w1. let w2 = set_allocator this (allocator (deques w1 lhs)) w1
                in CopyList this (start (deques w2 lhs)) w2)"

text \<open>
  \<^verbatim>\<open>void Copy(deque_t const &lhs, std::shared_ptr<alloc_strategy_t> const &strategy) {
  FreeList(start, allocator); allocator = single_allocator_t<node_t>(strategy);
  CopyList(lhs.start); }\<close>
\<close>

definition Copy :: "nat \<Rightarrow> nat \<Rightarrow> nat \<Rightarrow> 'a world \<Rightarrow> (unit, 'a) result option" where
  "Copy this lhs strategy w =
     loop_bind (FreeList (start (deques w this)) (allocator (deques w this)) w)
       (\<lambda>_ w1. let w2 = set_allocator this \<lparr>allocStrategy = strategy\<rparr> w1
                in CopyList this (start (deques w2 lhs)) w2)"

text \<open>
  \<^verbatim>\<open>void operator=(deque_t &&rhs) { FreeList(start, allocator);
  allocator = std::move(rhs.allocator); start = rhs.start; tail = rhs.tail;
  rhs.tail = nullptr; rhs.start = nullptr; }\<close>
\<close>

definition move_assign :: "nat \<Rightarrow> nat \<Rightarrow> 'a world \<Rightarrow> (unit, 'a) result option" where
  "move_assign this rhs w =
     loop_bind (FreeList (start (deques w this)) (allocator (deques w this)) w)
       (\<lambda>_ w1. let w2 = move_allocator this rhs w1;
                    w3 = set_start this (start (deques w2 rhs)) w2;
                    w4 = set_tail this (tail (deques w3 rhs)) w3;
                    w5 = set_tail rhs 0 w4
                in Some (Ok () (set_start rhs 0 w5)))"

text \<open>\<^verbatim>\<open>~deque_t(void) { FreeList(start, allocator); }\<close>\<close>

definition deque_dtor :: "nat \<Rightarrow> 'a world \<Rightarrow> (unit, 'a) result option" where
  "deque_dtor this w = FreeList (start (deques w this)) (allocator (deques w this)) w"

subsection \<open>Push and pop\<close>

text \<open>
  \<^verbatim>\<open>void PushBack(T const &data) { tail = allocator.alloc(data, tail, nullptr);
  if (start == nullptr) start = tail; else tail->prev->next = tail; }\<close>
  The overload taking \<^verbatim>\<open>T &&\<close> differs only in moving the value.
\<close>

definition PushBack :: "nat \<Rightarrow> 'a \<Rightarrow> 'a world \<Rightarrow> (unit, 'a) result" where
  "PushBack this dat w =
     result_bind
       (single_allocator_alloc (allocator (deques w this)) (node_ctor dat (tail (deques w this)) 0) w)
       (\<lambda>p w1.
          let w2 = set_tail this p w1
          in if start (deques w2 this) = 0 then Ok () (set_start this (tail (deques w2 this)) w2)
             else case get_node w2 (tail (deques w2 this)) of
               None \<Rightarrow> Fault InvalidAccess
             | Some n \<Rightarrow> set_next (prev_node n) (tail (deques w2 this)) w2)"

text \<open>
  \<^verbatim>\<open>void PushFront(T const &data) { start = allocator.alloc(data, nullptr, start);
  if (tail == nullptr) tail = start; else start->next->prev = start; }\<close>
\<close>

definition PushFront :: "nat \<Rightarrow> 'a \<Rightarrow> 'a world \<Rightarrow> (unit, 'a) result" where
  "PushFront this dat w =
     result_bind
       (single_allocator_alloc (allocator (deques w this)) (node_ctor dat 0 (start (deques w this))) w)
       (\<lambda>p w1.
          let w2 = set_start this p w1
          in if tail (deques w2 this) = 0 then Ok () (set_tail this (start (deques w2 this)) w2)
             else case get_node w2 (start (deques w2 this)) of
               None \<Rightarrow> Fault InvalidAccess
             | Some n \<Rightarrow> set_prev (next_node n) (start (deques w2 this)) w2)"

text \<open>
  \<^verbatim>\<open>T PopBack(void) { if (tail == nullptr) throw std::exception("Empty list");
  T data = std::move(tail->data); node_t *tmp = tail->prev; allocator.dealloc(tail);
  tail = tmp; if (tmp == nullptr) start = nullptr; else tail->next = nullptr;
  return data; }\<close>
\<close>

definition PopBack :: "nat \<Rightarrow> 'a world \<Rightarrow> ('a, 'a) result" where
  "PopBack this w =
     (if tail (deques w this) = 0 then Thrown ''Empty list'' w
      else case get_node w (tail (deques w this)) of
        None \<Rightarrow> Fault InvalidAccess
      | Some n \<Rightarrow>
          (let dat = data n; tmp = prev_node n
           in result_bind (single_allocator_dealloc (allocator (deques w this)) (tail (deques w this)) w)
                (\<lambda>_ w1.
                   let w2 = set_tail this tmp w1
                   in if tmp = 0 then Ok dat (set_start this 0 w2)
                      else result_bind (set_next (tail (deques w2 this)) 0 w2) (\<lambda>_ w3. Ok dat w3))))"

text \<open>
  \<^verbatim>\<open>T PopFront(void) { if (start == nullptr) throw std::exception("Empty list");
  T data = std::move(start->data); node_t *tmp = start->next; allocator.dealloc(start);
  start = tmp; if (tmp == nullptr) tail = nullptr; else start->prev = nullptr;
  return data; }\<close>
\<close>

definition PopFront :: "nat \<Rightarrow> 'a world \<Rightarrow> ('a, 'a) result" where
  "PopFront this w =
     (if start (deques w this) = 0 then Thrown ''Empty list'' w
      else case get_node w (start (deques w this)) of
        None \<Rightarrow> Fault InvalidAccess
      | Some n \<Rightarrow>
          (let dat = data n; tmp = next_node n
           in result_bind (single_allocator_dealloc (allocator (deques w this)) (start (deques w this)) w)
                (\<lambda>_ w1.
                   let w2 = set_start this tmp w1
                   in if tmp = 0 then Ok dat (set_tail this 0 w2)
                      else result_bind (set_prev (start (deques w2 this)) 0 w2) (\<lambda>_ w3. Ok dat w3))))"

text \<open>\<^verbatim>\<open>bool IsEmpty(void) const { return start == nullptr; }\<close>\<close>

definition IsEmpty :: "nat \<Rightarrow> 'a world \<Rightarrow> bool" where
  "IsEmpty this w = (start (deques w this) = 0)"

text \<open>\<^verbatim>\<open>void Clear(void) { FreeList(start, allocator); start = nullptr; tail = nullptr; }\<close>\<close>

definition Clear :: "nat \<Rightarrow> 'a world \<Rightarrow> (unit, 'a) result option" where
  "Clear this w =
     loop_bind (FreeList (start (deques w this)) (allocator (deques w this)) w)
       (\<lambda>_ w1. Some (Ok () (set_tail this 0 (set_start this 0 w1))))"

subsection \<open>ChangeAllocator\<close>

text \<open>
  \<^verbatim>\<open>void ChangeAllocator(std::shared_ptr<alloc_strategy_t> const &strategy) {
  auto prevAllocator = allocator; node_t *prevBegin = start, *prevEnd = tail;
  allocator = single_allocator_t<node_t>(strategy);
  if (start == nullptr) { start = nullptr; tail = nullptr; return; }
  start = allocator.alloc(std::move(*start)); node_t *prev = start;
  for (node_t const *node = start->next; ...) ...
  tail = prev; prev->next = nullptr; FreeList(start, prevAllocator); }\<close>
  The locals \<^verbatim>\<open>prevBegin\<close> and \<^verbatim>\<open>prevEnd\<close> are never read: the list that is
  handed to \<^verbatim>\<open>FreeList\<close> is the one \<^verbatim>\<open>start\<close> points to at that moment.
\<close>

definition ChangeAllocator :: "nat \<Rightarrow> nat \<Rightarrow> 'a world \<Rightarrow> (unit, 'a) result option" where
  "ChangeAllocator this strategy w =
     (let prevAllocator = allocator (deques w this);
          w1 = set_allocator this \<lparr>allocStrategy = strategy\<rparr> w
      in if start (deques w1 this) = 0 then Some (Ok () (set_tail this 0 (set_start this 0 w1)))
         else case single_allocator_alloc (allocator (deques w1 this))
                     (node_copy_ctor (start (deques w1 this))) w1 of
           Ok p w2 \<Rightarrow>
             (let w3 = set_start this p w2
              in case get_node w3 (start (deques w3 this)) of
                   None \<Rightarrow> Some (Fault InvalidAccess)
                 | Some b \<Rightarrow>
                     loop_bind (copy_rest this (next_node b) w3)
                       (\<lambda>_ w4. FreeList (start (deques w4 this)) prevAllocator w4))
         | Thrown s w2 \<Rightarrow> Some (Thrown s w2)
         | Fault e \<Rightarrow> Some (Fault e))"

subsection \<open>Iteration and output\<close>

text \<open>\<^verbatim>\<open>class iterator_t { node_t *node; ... }\<close>\<close>

record iterator_t =
  node :: addr

text \<open>\<^verbatim>\<open>iterator_t begin(void) { return iterator_t(start); }\<close> and
  \<^verbatim>\<open>iterator_t end(void) { return iterator_t(nullptr); }\<close>\<close>

definition deque_begin :: "nat \<Rightarrow> 'a world \<Rightarrow> iterator_t" where
  "deque_begin this w = \<lparr>node = start (deques w this)\<rparr>"

definition deque_end :: "nat \<Rightarrow> 'a world \<Rightarrow> iterator_t" where
  "deque_end this w = \<lparr>node = 0\<rparr>"

text \<open>\<^verbatim>\<open>bool operator==(iterator_t const &lhs) { return node == lhs.node; }\<close> and
  \<^verbatim>\<open>operator!=\<close>\<close>

definition iterator_eq :: "iterator_t \<Rightarrow> iterator_t \<Rightarrow> bool" where
  "iterator_eq it lhs = (node it = node lhs)"

definition iterator_neq :: "iterator_t \<Rightarrow> iterator_t \<Rightarrow> bool" where
  "iterator_neq it lhs = (node it \<noteq> node lhs)"

text \<open>
  \<^verbatim>\<open>T &operator*(void) { if (node == nullptr) throw std::exception("Try to use end iterator");
  return node->data; }\<close>
  The reference that is returned is the location of the \<^verbatim>\<open>data\<close> member of the node,
  that is the node's address; \<open>ref_read\<close> and \<open>ref_write\<close> are the two uses of a
  \<^verbatim>\<open>T &\<close>.
\<close>

definition iterator_deref :: "iterator_t \<Rightarrow> 'a world \<Rightarrow> (addr, 'a) result" where
  "iterator_deref it w =
     (if node it = 0 then Thrown ''Try to use end iterator'' w else Ok (node it) w)"

definition ref_read :: "addr \<Rightarrow> 'a world \<Rightarrow> ('a, 'a) result" where
  "ref_read r w = (case get_node w r of None \<Rightarrow> Fault InvalidAccess | Some n \<Rightarrow> Ok (data n) w)"

definition ref_write :: "addr \<Rightarrow> 'a \<Rightarrow> 'a world \<Rightarrow> (unit, 'a) result" where
  "ref_write r v w =
     (case get_node w r of
        None \<Rightarrow> Fault InvalidAccess
      | Some n \<Rightarrow> Ok () (w\<lparr>mem := (mem w)(r \<mapsto> n\<lparr>data := v\<rparr>)\<rparr>))"

text \<open>
  \<^verbatim>\<open>iterator_t &operator++(void) { if (node == nullptr) throw ...; node = node->next;
  return *this; }\<close>
  The result is the iterator after the step.
\<close>

definition iterator_pre_incr :: "iterator_t \<Rightarrow> 'a world \<Rightarrow> (iterator_t, 'a) result" where
  "iterator_pre_incr it w =
     (if node it = 0 then Thrown ''Try to use end iterator'' w
      else case get_node w (node it) of
        None \<Rightarrow> Fault InvalidAccess
      | Some n \<Rightarrow> Ok (it\<lparr>node := next_node n\<rparr>) w)"

text \<open>
  \<^verbatim>\<open>iterator_t &operator++(int) { if (node == nullptr) throw ...; iterator_t tmp{*this};
  node = node->next; return tmp; }\<close>
  What is returned is a reference to the local \<^verbatim>\<open>tmp\<close>, which is gone at the return;
  the model keeps the effect on the iterator only, which is again the result.
\<close>

definition iterator_post_incr :: "iterator_t \<Rightarrow> 'a world \<Rightarrow> (iterator_t, 'a) result" where
  "iterator_post_incr it w =
     (if node it = 0 then Thrown ''Try to use end iterator'' w
      else case get_node w (node it) of
        None \<Rightarrow> Fault InvalidAccess
      | Some n \<Rightarrow> Ok (it\<lparr>node := next_node n\<rparr>) w)"

text \<open>
  The traversal a client writes with these operators,
  \<^verbatim>\<open>for (auto it = d.begin(); it != d.end(); ++it) out.push_back(*it);\<close>
  with \<open>acc\<close> the values collected so far.
\<close>

partial_function (option) iterate ::
  "nat \<Rightarrow> iterator_t \<Rightarrow> 'a list \<Rightarrow> 'a world \<Rightarrow> ('a list, 'a) result option" where
  "iterate this it acc w =
     (if iterator_neq it (deque_end this w)
      then (case iterator_deref it w of
              Ok r w1 \<Rightarrow>
                (case ref_read r w1 of
                   Ok v w2 \<Rightarrow>
                     (case iterator_pre_incr it w2 of
                        Ok it' w3 \<Rightarrow> iterate this it' (acc @ [v]) w3
                      | Thrown s w3 \<Rightarrow> Some (Thrown s w3)
                      | Fault e \<Rightarrow> Some (Fault e))
                 | Thrown s w2 \<Rightarrow> Some (Thrown s w2)
                 | Fault e \<Rightarrow> Some (Fault e))
            | Thrown s w1 \<Rightarrow> Some (Thrown s w1)
            | Fault e \<Rightarrow> Some (Fault e))
      else Some (Ok acc w))"

text \<open>
  \<^verbatim>\<open>operator<<\<close>: \<^verbatim>\<open>for (node_t *node = deq.start; node != nullptr; node = node->next)
  std::cout << node->data << ", ";\<close>
  The values written are returned, front to back, after those written before (\<open>acc\<close>).
\<close>

partial_function (option) output_nodes ::
  "addr \<Rightarrow> 'a list \<Rightarrow> 'a world \<Rightarrow> ('a list, 'a) result option" where
  "output_nodes p acc w =
     (if p = 0 then Some (Ok acc w)
      else case get_node w p of
        None \<Rightarrow> Some (Fault InvalidAccess)
      | Some n \<Rightarrow> output_nodes (next_node n) (acc @ [data n]) w)"

definition output_deque :: "nat \<Rightarrow> 'a world \<Rightarrow> ('a list, 'a) result option" where
  "output_deque deq w = output_nodes (start (deques w deq)) [] w"

text \<open>The state at program start: nothing allocated, \<open>n\<close> bytes available.\<close>

definition initial_world :: "nat \<Rightarrow> 'a world" where
  "initial_world n =
     \<lparr>blocks = [], avail = n, allocEls = (\<lambda>_. []), mem = Map.empty,
      deques = (\<lambda>_. \<lparr>start = 0, tail = 0, allocator = \<lparr>allocStrategy = 0\<rparr>\<rparr>)\<rparr>"

section \<open>Well-formed deques\<close>

text \<open>
  \<open>dseg m pr p as xs q\<close>: in the node store \<open>m\<close>, following \<^verbatim>\<open>next\<close> from
  \<open>p\<close> visits exactly the addresses \<open>as\<close>, which hold the values \<open>xs\<close>, and ends
  at \<open>q\<close>; the \<^verbatim>\<open>prev\<close> link of each node is the node before it, \<open>pr\<close> for the
  first. With \<open>pr = 0\<close> and \<open>q = 0\<close> this is a complete doubly linked list.
\<close>

fun dseg :: "(addr \<rightharpoonup> 'a node_t) \<Rightarrow> addr \<Rightarrow> addr \<Rightarrow> addr list \<Rightarrow> 'a list \<Rightarrow> addr \<Rightarrow> bool" where
  "dseg m pr p [] [] q = (p = q)"
| "dseg m pr p (a # as) (x # xs) q =
     (p = a \<and> a \<noteq> 0 \<and>
      (case m a of
         None \<Rightarrow> False
       | Some n \<Rightarrow> prev_node n = pr \<and> data n = x \<and> dseg m a (next_node n) as xs q))"
| "dseg m pr p as xs q = False"

text \<open>
  The deque at location \<open>this\<close> is well formed, with nodes \<open>as\<close> and values
  \<open>xs\<close> from front to back: \<^verbatim>\<open>start\<close> heads the list, \<^verbatim>\<open>tail\<close> is its last
  node (both null when the list is empty), the allocator has a strategy, and every node
  is a live block that this strategy tracks.
\<close>

definition deque_inv :: "'a world \<Rightarrow> nat \<Rightarrow> addr list \<Rightarrow> 'a list \<Rightarrow> bool" where
  "deque_inv w this as xs \<longleftrightarrow>
     dseg (mem w) 0 (start (deques w this)) as xs 0 \<and>
     tail (deques w this) = (if as = [] then 0 else last as) \<and>
     allocStrategy (allocator (deques w this)) \<noteq> 0 \<and>
     distinct as \<and>
     (\<forall>a \<in> set as. a \<in> set (allocEls w (allocStrategy (allocator (deques w this)))) \<and>
                    map_of (blocks w) a \<noteq> None)"

text \<open>
  A step from \<open>w\<close> to \<open>w'\<close> touches no block outside \<open>A\<close>: every block that is live
  in \<open>w\<close> and not in \<open>A\<close> is still live, holds the same node and is tracked by the
  same strategies.
\<close>

definition only_touched :: "addr set \<Rightarrow> 'a world \<Rightarrow> 'a world \<Rightarrow> bool" where
  "only_touched A w w' \<longleftrightarrow>
     (\<forall>a. a \<notin> A \<and> map_of (blocks w) a \<noteq> None \<longrightarrow>
        mem w' a = mem w a \<and> map_of (blocks w') a \<noteq> None \<and>
        (\<forall>s. a \<in> set (allocEls w s) \<longrightarrow> a \<in> set (allocEls w' s)))"

text \<open>
  The bytes that one node of a deque takes from the memory: its own block and the node
  of the tracking list that records it.
\<close>

definition node_cost :: nat where
  "node_cost = sizeof_node_t + sizeof_list_node"

text \<open>The states right after a node has been allocated, and after one has been released.\<close>

definition node_allocated :: "nat \<Rightarrow> addr \<Rightarrow> 'a node_t \<Rightarrow> 'a world \<Rightarrow> 'a world" where
  "node_allocated s p n w =
     w\<lparr>blocks := blocks w @ [(p, sizeof_node_t)], avail := avail w - node_cost,
       allocEls := (allocEls w)(s := allocEls w s @ [p]), mem := (mem w)(p \<mapsto> n)\<rparr>"

definition node_freed :: "nat \<Rightarrow> addr \<Rightarrow> nat \<Rightarrow> 'a world \<Rightarrow> 'a world" where
  "node_freed s p k w =
     w\<lparr>blocks := filter (\<lambda>b. fst b \<noteq> p) (blocks w), avail := avail w + k + sizeof_list_node,
       mem := (mem w)(p := None), allocEls := (allocEls w)(s := remove1 p (allocEls w s))\<rparr>"

definition next_block :: "'a world \<Rightarrow> addr" where
  "next_block w = fresh_addr (map fst (blocks w))"

text \<open>
  A concrete state: the deque \<^verbatim>\<open>deq\<close> of \<^verbatim>\<open>main.cpp\<close> at location 1 after
  \<^verbatim>\<open>PushBack(3); PushBack(4); PushFront(2); PushFront(1)\<close> under strategy 1, and
  at location 2 a deque that has just been constructed with strategy 2, from 1000 bytes
  of free memory (lemma \<open>world_1234_built\<close> below runs the operations).
\<close>

definition world_1234 :: "int world" where
  "world_1234 =
     \<lparr>blocks = [(1, sizeof_node_t), (2, sizeof_node_t), (3, sizeof_node_t), (4, sizeof_node_t)],
      avail = 808,
      allocEls = (\<lambda>_. [])(1 := [1, 2, 3, 4]),
      mem = [1 \<mapsto> \<lparr>next_node = 2, prev_node = 3, data = 3\<rparr>,
             2 \<mapsto> \<lparr>next_node = 0, prev_node = 1, data = 4\<rparr>,
             3 \<mapsto> \<lparr>next_node = 1, prev_node = 4, data = 2\<rparr>,
             4 \<mapsto> \<lparr>next_node = 3, prev_node = 0, data = 1\<rparr>],
      deques = (\<lambda>_. \<lparr>start = 0, tail = 0, allocator = \<lparr>allocStrategy = 0\<rparr>\<rparr>)
                 (1 := \<lparr>start = 4, tail = 2, allocator = \<lparr>allocStrategy = 1\<rparr>\<rparr>,
                  2 := \<lparr>start = 0, tail = 0, allocator = \<lparr>allocStrategy = 2\<rparr>\<rparr>)\<rparr>"

section \<open>Client code used to state the properties\<close>

text \<open>
  The operations with which a client changes the contents of one deque (pushes, pops,
  \<^verbatim>\<open>Clear\<close> and assignment to an element through an iterator), and a run of several
  of them on the deque at \<open>d\<close>; the run stops at the first exception or fault.
\<close>

datatype 'a mutation =
  MPushBack 'a | MPushFront 'a | MPopBack | MPopFront | MClear | MAssign nat 'a

text \<open>\<^verbatim>\<open>++it\<close>, \<open>k\<close> times.\<close>

fun advance :: "nat \<Rightarrow> iterator_t \<Rightarrow> 'a world \<Rightarrow> (iterator_t, 'a) result" where
  "advance 0 it w = Ok it w"
| "advance (Suc k) it w = result_bind (iterator_pre_incr it w) (\<lambda>it' w'. advance k it' w')"

text \<open>
  \<open>MAssign i v\<close> is the write through an iterator,
  \<^verbatim>\<open>auto it = d.begin(); for (k = 0; k < i; k++) ++it; *it = v;\<close>
\<close>

fun mutate :: "'a mutation \<Rightarrow> nat \<Rightarrow> 'a world \<Rightarrow> (unit, 'a) result option" where
  "mutate (MPushBack x) d w = Some (PushBack d x w)"
| "mutate (MPushFront x) d w = Some (PushFront d x w)"
| "mutate MPopBack d w = Some (result_bind (PopBack d w) (\<lambda>_ w'. Ok () w'))"
| "mutate MPopFront d w = Some (result_bind (PopFront d w) (\<lambda>_ w'. Ok () w'))"
| "mutate MClear d w = Clear d w"
| "mutate (MAssign i v) d w =
     Some (result_bind (advance i (deque_begin d w) w)
             (\<lambda>it w1. result_bind (iterator_deref it w1) (\<lambda>r w2. ref_write r v w2)))"

fun mutate_seq :: "'a mutation list \<Rightarrow> nat \<Rightarrow> 'a world \<Rightarrow> (unit, 'a) result option" where
  "mutate_seq [] d w = Some (Ok () w)"
| "mutate_seq (m # ms) d w = loop_bind (mutate m d w) (\<lambda>_ w1. mutate_seq ms d w1)"

text \<open>
  A run of pushes and pops on the deque at \<open>d\<close>, in order, which collects the popped
  values after \<open>out\<close> and stops at the first exception or fault.
\<close>

datatype 'a deque_op = OpPushBack 'a | OpPushFront 'a | OpPopBack | OpPopFront

fun run_ops :: "'a deque_op list \<Rightarrow> nat \<Rightarrow> 'a list \<Rightarrow> 'a world \<Rightarrow> ('a list, 'a) result" where
  "run_ops [] d out w = Ok out w"
| "run_ops (OpPushBack x # ops) d out w =
     result_bind (PushBack d x w) (\<lambda>_ w1. run_ops ops d out w1)"
| "run_ops (OpPushFront x # ops) d out w =
     result_bind (PushFront d x w) (\<lambda>_ w1. run_ops ops d out w1)"
| "run_ops (OpPopBack # ops) d out w =
     result_bind (PopBack d w) (\<lambda>v w1. run_ops ops d (out @ [v]) w1)"
| "run_ops (OpPopFront # ops) d out w =
     result_bind (PopFront d w) (\<lambda>v w1. run_ops ops d (out @ [v]) w1)"

text \<open>
  The same run on a double-ended queue as the specification describes it, a plain
  sequence of values: the popped values and the final sequence, or nothing when a pop
  meets the empty sequence.
\<close>

fun spec_ops :: "'a deque_op list \<Rightarrow> 'a list \<Rightarrow> 'a list \<Rightarrow> ('a list \<times> 'a list) option" where
  "spec_ops [] xs out = Some (out, xs)"
| "spec_ops (OpPushBack x # ops) xs out = spec_ops ops (xs @ [x]) out"
| "spec_ops (OpPushFront x # ops) xs out = spec_ops ops (x # xs) out"
| "spec_ops (OpPopBack # ops) xs out =
     (if xs = [] then None else spec_ops ops (butlast xs) (out @ [last xs]))"
| "spec_ops (OpPopFront # ops) xs out =
     (if xs = [] then None else spec_ops ops (tl xs) (out @ [hd xs]))"

text \<open>The number of pushes of a run, each of which needs one node.\<close>

fun pushes :: "'a deque_op list \<Rightarrow> nat" where
  "pushes [] = 0"
| "pushes (OpPushBack x # ops) = Suc (pushes ops)"
| "pushes (OpPushFront x # ops) = Suc (pushes ops)"
| "pushes (OpPopBack # ops) = pushes ops"
| "pushes (OpPopFront # ops) = pushes ops"

text \<open>
  The invariant of the specification's data model, in its words: \<^verbatim>\<open>k\<close> steps along a
  link \<open>f\<close> (\<^verbatim>\<open>next\<close> or \<^verbatim>\<open>prev\<close>) from a pointer, each of which reads a node;
  and: head and tail are both null, or both non-null with the tail reached from the head
  along \<^verbatim>\<open>next\<close> and the head reached from the tail along \<^verbatim>\<open>prev\<close> in the same
  number of steps.
\<close>

fun steps :: "('a node_t \<Rightarrow> addr) \<Rightarrow> 'a world \<Rightarrow> nat \<Rightarrow> addr \<Rightarrow> addr option" where
  "steps f w 0 p = Some p"
| "steps f w (Suc k) p = (case get_node w p of None \<Rightarrow> None | Some n \<Rightarrow> steps f w k (f n))"

definition linked :: "'a world \<Rightarrow> nat \<Rightarrow> bool" where
  "linked w d \<longleftrightarrow>
     (start (deques w d) = 0 \<and> tail (deques w d) = 0) \<or>
     (start (deques w d) \<noteq> 0 \<and> tail (deques w d) \<noteq> 0 \<and>
      (\<exists>k. steps next_node w k (start (deques w d)) = Some (tail (deques w d)) \<and>
           steps prev_node w k (tail (deques w d)) = Some (start (deques w d))))"

section \<open>Lemmas\<close>

subsection \<open>Allocation and release of one node\<close>

text \<open>
  \<^verbatim>\<open>malloc\<close> returns a non-null address that is not live; with a strategy and memory
  for the node and for the list node that records it, the typed allocator returns a node
  at that address, and without that memory it ends in \<^verbatim>\<open>std::bad_alloc\<close>; releasing
  a tracked live block succeeds.
\<close>

lemma fresh_addr_exists: "\<exists>a. 1 \<le> a \<and> a < length used + 2 \<and> a \<notin> set used"
proof (rule ccontr)
  assume "\<not> ?thesis"
  then have sub: "{1..<length used + 2} \<subseteq> set used" by force
  have "card {1..<length used + 2} \<le> card (set used)"
    by (rule card_mono[OF _ sub]) simp
  moreover have "card (set used) \<le> length used" by (rule card_length)
  ultimately show False by simp
qed

lemma fresh_addr_props: "fresh_addr used \<notin> set used \<and> fresh_addr used \<noteq> 0"
proof -
  let ?l = "filter (\<lambda>a. a \<notin> set used) [1..<length used + 2]"
  obtain a where a: "1 \<le> a" "a < length used + 2" "a \<notin> set used"
    using fresh_addr_exists[of used] by blast
  then have "a \<in> set ?l" by (simp del: upt_Suc)
  then have ne: "?l \<noteq> []" by (metis empty_iff empty_set)
  then have "hd ?l \<in> set ?l" by (rule hd_in_set)
  then have "hd ?l \<notin> set used \<and> 1 \<le> hd ?l" by (simp del: upt_Suc)
  then show ?thesis unfolding fresh_addr_def by auto
qed

lemma next_block_fresh: "map_of (blocks w) (next_block w) = None" "next_block w \<noteq> 0"
  using fresh_addr_props[of "map fst (blocks w)"]
  by (auto simp: next_block_def map_of_eq_None_iff)

lemma alloc_ok:
  assumes "allocStrategy a \<noteq> 0" "node_cost \<le> avail w"
    and "\<And>w1. mem w1 = mem w \<Longrightarrow> ctor w1 = Some n"
  shows "single_allocator_alloc a ctor w = Ok (next_block w) (node_allocated (allocStrategy a) (next_block w) n w)"
  using assms next_block_fresh(2)[of w]
  by (simp add: single_allocator_alloc_def stupid_strategy_alloc_def malloc_def Let_def
      list_push_back_def result_bind_def node_cost_def node_allocated_def next_block_def)

lemma alloc_only_with_room:
  assumes "single_allocator_alloc a ctor w = Ok p w'"
  shows "node_cost \<le> avail w"
  using assms
  by (auto simp: single_allocator_alloc_def stupid_strategy_alloc_def malloc_def Let_def
      list_push_back_def result_bind_def node_cost_def split: if_splits option.splits)

lemma alloc_bad_alloc:
  assumes "allocStrategy a \<noteq> 0" "\<not> node_cost \<le> avail w"
  shows "\<exists>w'. single_allocator_alloc a ctor w = Thrown ''std::bad_alloc'' w' \<and>
           deques w' = deques w \<and> mem w' = mem w \<and> allocEls w' = allocEls w \<and>
           (blocks w' = blocks w \<or> blocks w' = blocks w @ [(next_block w, sizeof_node_t)])"
  using assms
  by (auto simp: single_allocator_alloc_def stupid_strategy_alloc_def malloc_def Let_def
      list_push_back_def result_bind_def node_cost_def sizeof_node_t_def sizeof_list_node_def
      next_block_def)



lemma dealloc_ok:
  assumes "allocStrategy a \<noteq> 0" "p \<noteq> 0" "p \<in> set (allocEls w (allocStrategy a))"
    "map_of (blocks w) p = Some k"
  shows "single_allocator_dealloc a p w = Ok () (node_freed (allocStrategy a) p k w)"
  using assms
  by (simp add: single_allocator_dealloc_def stupid_strategy_dealloc_def free_def result_bind_def
      list_erase_def node_freed_def)

subsection \<open>List segments\<close>

lemma dseg_length: "dseg m pr p as xs q \<Longrightarrow> length as = length xs"
  by (induction m pr p as xs q rule: dseg.induct) (auto split: option.splits)

lemma dseg_nonzero: "dseg m pr p as xs q \<Longrightarrow> 0 \<notin> set as"
  by (induction m pr p as xs q rule: dseg.induct) (auto split: option.splits)

lemma dseg_live: "dseg m pr p as xs q \<Longrightarrow> a \<in> set as \<Longrightarrow> m a \<noteq> None"
  by (induction m pr p as xs q rule: dseg.induct) (auto split: option.splits)

lemma dseg_cong: "\<forall>a \<in> set as. m' a = m a \<Longrightarrow> dseg m' pr p as xs q = dseg m pr p as xs q"
  by (induction m pr p as xs q rule: dseg.induct) (auto split: option.splits)

lemma dseg_upd_other: "a \<notin> set as \<Longrightarrow> dseg (m(a := v)) pr p as xs q = dseg m pr p as xs q"
  by (rule dseg_cong) auto

lemma dseg_start_null: "dseg m pr 0 as xs q \<Longrightarrow> as = [] \<and> xs = [] \<and> q = 0"
  by (cases as; cases xs) auto

lemma dseg_empty_iff: "dseg m pr p as xs 0 \<Longrightarrow> (p = 0) = (as = [])"
  by (cases as; cases xs) auto

lemma dseg_snoc:
  "length as = length xs \<Longrightarrow>
   dseg m pr p (as @ [a]) (xs @ [x]) q \<longleftrightarrow>
     dseg m pr p as xs a \<and> a \<noteq> 0 \<and>
     (case m a of None \<Rightarrow> False
      | Some n \<Rightarrow> prev_node n = (if as = [] then pr else last as) \<and> data n = x \<and> next_node n = q)"
proof (induction as arbitrary: xs pr p)
  case Nil
  then show ?case by (auto split: option.splits)
next
  case (Cons b bs)
  then obtain y ys where xs: "xs = y # ys" "length bs = length ys" by (cases xs) auto
  show ?case using Cons.IH[OF xs(2)] unfolding xs
    by (cases "m b") (auto split: option.splits)
qed

lemma dseg_set_last_next:
  "dseg m pr p as xs q \<Longrightarrow> as \<noteq> [] \<Longrightarrow> distinct as \<Longrightarrow> m (last as) = Some n \<Longrightarrow>
   dseg (m(last as \<mapsto> n\<lparr>next_node := q'\<rparr>)) pr p as xs q'"
proof (induction m pr p as xs q rule: dseg.induct)
  case (2 m pr p a as x xs q)
  show ?case
  proof (cases "as = []")
    case True
    with 2 show ?thesis by (cases xs) (auto split: option.splits)
  next
    case False
    with 2 show ?thesis by (auto split: option.splits)
  qed
qed auto

lemma dseg_set_hd_prev:
  "dseg m pr p (a # as) xs q \<Longrightarrow> a \<notin> set as \<Longrightarrow> m a = Some n \<Longrightarrow>
   dseg (m(a \<mapsto> n\<lparr>prev_node := pr'\<rparr>)) pr' p (a # as) xs q"
  by (cases xs) (auto simp: dseg_upd_other split: option.splits)

subsection \<open>Frames\<close>

text \<open>
  What a step leaves alone, and that a well-formed deque whose nodes are left alone stays
  well formed.
\<close>

lemma only_touched_refl: "only_touched A w w"
  by (simp add: only_touched_def)

lemma only_touched_trans:
  "only_touched A w w1 \<Longrightarrow> only_touched A w1 w2 \<Longrightarrow> only_touched A w w2"
  unfolding only_touched_def by metis

lemma only_touched_mono:
  "only_touched A w w' \<Longrightarrow> A \<subseteq> B \<Longrightarrow> only_touched B w w'"
  unfolding only_touched_def by blast

lemma deque_inv_preserved:
  assumes "deque_inv w other bs ys" "only_touched A w w'" "set bs \<inter> A = {}"
    "deques w' other = deques w other"
  shows "deque_inv w' other bs ys"
proof -
  have live: "\<forall>a \<in> set bs. a \<notin> A \<and> map_of (blocks w) a \<noteq> None"
    using assms(1,3) by (auto simp: deque_inv_def)
  then have m: "\<forall>a \<in> set bs. mem w' a = mem w a"
    using assms(2) unfolding only_touched_def by blast
  have "dseg (mem w') 0 (start (deques w other)) bs ys 0"
    using assms(1) dseg_cong[OF m] by (simp add: deque_inv_def)
  moreover have "\<forall>a \<in> set bs. a \<in> set (allocEls w' (allocStrategy (allocator (deques w other)))) \<and>
                    map_of (blocks w') a \<noteq> None"
    using live assms(1,2) unfolding only_touched_def deque_inv_def by blast
  ultimately show ?thesis using assms(1,4) by (simp add: deque_inv_def)
qed

lemma get_node_simp [simp]: "p \<noteq> 0 \<Longrightarrow> get_node w p = mem w p"
  by (simp add: get_node_def)

lemma only_touched_allocated:
  "map_of (blocks w) p = None \<Longrightarrow> only_touched A w (node_allocated s p n w)"
  by (auto simp: only_touched_def node_allocated_def)

lemma map_of_filter_other: "a \<noteq> p \<Longrightarrow> map_of (filter (\<lambda>b. fst b \<noteq> p) bl) a = map_of bl a"
  by (induction bl) auto

lemma only_touched_freed:
  "p \<in> A \<Longrightarrow> only_touched A w (node_freed s p k w)"
  by (auto simp: only_touched_def node_freed_def map_of_filter_other)

subsection \<open>Push, pop and FreeList on a well-formed deque\<close>

text \<open>
  Each operation returns, keeps the deque well formed on the expected nodes and values,
  and touches no live block but the deque's own.
\<close>

lemma PushBack_ok:
  assumes inv: "deque_inv w this as xs" and room: "node_cost \<le> avail w"
  shows "\<exists>w'. PushBack this x w = Ok () w' \<and>
           deque_inv w' this (as @ [next_block w]) (xs @ [x]) \<and>
           only_touched (set as) w w' \<and>
           (\<forall>other. other \<noteq> this \<longrightarrow> deques w' other = deques w other) \<and>
           avail w' = avail w - node_cost \<and>
           allocator (deques w' this) = allocator (deques w this)"
proof -
  let ?d = "deques w this"
  let ?s = "allocStrategy (allocator ?d)"
  let ?p = "next_block w"
  let ?n = "\<lparr>next_node = 0, prev_node = tail ?d, data = x\<rparr>"
  let ?w1 = "node_allocated ?s ?p ?n w"
  have s: "?s \<noteq> 0" and seg: "dseg (mem w) 0 (start ?d) as xs 0"
    and tl: "tail ?d = (if as = [] then 0 else last as)" and dist: "distinct as"
    and own: "\<forall>a \<in> set as. a \<in> set (allocEls w ?s) \<and> map_of (blocks w) a \<noteq> None"
    using inv by (auto simp: deque_inv_def)
  have fresh: "map_of (blocks w) ?p = None" "?p \<noteq> 0" by (rule next_block_fresh)+
  have pnotin: "?p \<notin> set as" using own fresh by auto
  have len: "length as = length xs" using seg by (rule dseg_length)
  have al: "single_allocator_alloc (allocator ?d) (node_ctor x (tail ?d) 0) w = Ok ?p ?w1"
    by (rule alloc_ok[OF s room]) (simp add: node_ctor_def)
  show ?thesis
  proof (cases "as = []")
    case True
    then have st: "start ?d = 0" "tail ?d = 0" "xs = []" using seg tl len by auto
    let ?w' = "set_start this ?p (set_tail this ?p ?w1)"
    have "PushBack this x w = Ok () ?w'"
      unfolding PushBack_def al
      using st by (simp add: result_bind_def Let_def set_tail_def set_start_def
          node_allocated_def)
    moreover have "deque_inv ?w' this (as @ [?p]) (xs @ [x])"
      using True st s fresh
      by (simp add: deque_inv_def set_start_def set_tail_def node_allocated_def)
    moreover have "only_touched (set as) w ?w'"
      using fresh by (auto simp: only_touched_def set_start_def set_tail_def node_allocated_def)
    ultimately show ?thesis
      by (auto simp: set_start_def set_tail_def node_allocated_def)
  next
    case False
    let ?q = "last as"
    have q: "?q \<in> set as" "tail ?d = ?q" "start ?d \<noteq> 0" using False tl seg dseg_empty_iff[OF seg] by auto
    then have q0: "?q \<noteq> 0" "?q \<noteq> ?p" using dseg_nonzero[OF seg] pnotin by metis+
    obtain nq where nq: "mem w ?q = Some nq" using dseg_live[OF seg q(1)] by auto
    let ?m' = "(mem w)(?p \<mapsto> ?n, ?q \<mapsto> nq\<lparr>next_node := ?p\<rparr>)"
    let ?w' = "(set_tail this ?p ?w1)\<lparr>mem := ?m'\<rparr>"
    have "PushBack this x w = Ok () ?w'"
      unfolding PushBack_def al
      using q q0 nq fresh
      by (simp add: result_bind_def Let_def set_tail_def set_next_def
          node_allocated_def)
    moreover have "dseg ?m' 0 (start ?d) (as @ [?p]) (xs @ [x]) 0"
    proof -
      have "dseg ((mem w)(?q \<mapsto> nq\<lparr>next_node := ?p\<rparr>)) 0 (start ?d) as xs ?p"
        by (rule dseg_set_last_next[OF seg False dist nq])
      then have "dseg ?m' 0 (start ?d) as xs ?p"
        using pnotin q0 by (simp add: fun_upd_twist dseg_upd_other)
      then show ?thesis using len False q q0 fresh by (simp add: dseg_snoc)
    qed
    then have "deque_inv ?w' this (as @ [?p]) (xs @ [x])"
      using s dist pnotin own fresh
      by (auto simp: deque_inv_def set_tail_def node_allocated_def)
    moreover have "only_touched (set as) w ?w'"
      using fresh q by (auto simp: only_touched_def set_tail_def node_allocated_def)
    ultimately show ?thesis
      by (auto simp: set_tail_def node_allocated_def)
  qed
qed

lemma PushFront_ok:
  assumes inv: "deque_inv w this as xs" and room: "node_cost \<le> avail w"
  shows "\<exists>w'. PushFront this x w = Ok () w' \<and>
           deque_inv w' this (next_block w # as) (x # xs) \<and>
           only_touched (set as) w w' \<and>
           (\<forall>other. other \<noteq> this \<longrightarrow> deques w' other = deques w other) \<and>
           avail w' = avail w - node_cost \<and>
           allocator (deques w' this) = allocator (deques w this)"
proof -
  let ?d = "deques w this"
  let ?s = "allocStrategy (allocator ?d)"
  let ?p = "next_block w"
  let ?n = "\<lparr>next_node = start ?d, prev_node = 0, data = x\<rparr>"
  let ?w1 = "node_allocated ?s ?p ?n w"
  have s: "?s \<noteq> 0" and seg: "dseg (mem w) 0 (start ?d) as xs 0"
    and tl: "tail ?d = (if as = [] then 0 else last as)" and dist: "distinct as"
    and own: "\<forall>a \<in> set as. a \<in> set (allocEls w ?s) \<and> map_of (blocks w) a \<noteq> None"
    using inv by (auto simp: deque_inv_def)
  have fresh: "map_of (blocks w) ?p = None" "?p \<noteq> 0" by (rule next_block_fresh)+
  have pnotin: "?p \<notin> set as" using own fresh by auto
  have len: "length as = length xs" using seg by (rule dseg_length)
  have al: "single_allocator_alloc (allocator ?d) (node_ctor x 0 (start ?d)) w = Ok ?p ?w1"
    by (rule alloc_ok[OF s room]) (simp add: node_ctor_def)
  show ?thesis
  proof (cases as)
    case Nil
    then have st: "start ?d = 0" "tail ?d = 0" "xs = []" using seg tl len by auto
    let ?w' = "set_tail this ?p (set_start this ?p ?w1)"
    have "PushFront this x w = Ok () ?w'"
      unfolding PushFront_def al
      using st by (simp add: result_bind_def Let_def set_tail_def set_start_def
          node_allocated_def)
    moreover have "deque_inv ?w' this (?p # as) (x # xs)"
      using Nil st s fresh
      by (simp add: deque_inv_def set_start_def set_tail_def node_allocated_def)
    moreover have "only_touched (set as) w ?w'"
      using fresh by (auto simp: only_touched_def set_start_def set_tail_def node_allocated_def)
    ultimately show ?thesis
      by (auto simp: set_start_def set_tail_def node_allocated_def)
  next
    case (Cons h as')
    then obtain y ys where xs: "xs = y # ys" using len by (cases xs) auto
    have h: "start ?d = h" "h \<noteq> 0" "h \<noteq> ?p" "h \<notin> set as'"
      using seg dist pnotin unfolding Cons xs by auto
    have "last as \<in> set as" using Cons by (intro last_in_set) simp
    then have "last as \<noteq> 0" using dseg_nonzero[OF seg] by metis
    then have tl0: "tail ?d \<noteq> 0" using tl Cons by simp
    obtain nh where nh: "mem w h = Some nh" using dseg_live[OF seg, of h] Cons by auto
    let ?m' = "(mem w)(?p \<mapsto> ?n, h \<mapsto> nh\<lparr>prev_node := ?p\<rparr>)"
    let ?w' = "(set_start this ?p ?w1)\<lparr>mem := ?m'\<rparr>"
    have "PushFront this x w = Ok () ?w'"
      unfolding PushFront_def al
      using h tl0 nh fresh
      by (simp add: result_bind_def Let_def set_start_def set_prev_def node_allocated_def)
    moreover have "dseg ?m' 0 ?p (?p # as) (x # xs) 0"
    proof -
      have "dseg ((mem w)(h \<mapsto> nh\<lparr>prev_node := ?p\<rparr>)) ?p h (h # as') xs 0"
        using seg h nh unfolding Cons by (intro dseg_set_hd_prev) auto
      then have "dseg ?m' ?p h as xs 0"
        using pnotin h unfolding Cons by (simp add: fun_upd_twist dseg_upd_other)
      then show ?thesis using h fresh by simp
    qed
    then have "deque_inv ?w' this (?p # as) (x # xs)"
      using s dist pnotin own fresh tl Cons
      by (auto simp: deque_inv_def set_start_def node_allocated_def)
    moreover have "only_touched (set as) w ?w'"
      using fresh Cons by (auto simp: only_touched_def set_start_def node_allocated_def)
    ultimately show ?thesis
      by (auto simp: set_start_def node_allocated_def)
  qed
qed

lemma PopBack_ok:
  assumes inv: "deque_inv w this as xs" and ne: "as \<noteq> []"
  shows "\<exists>w'. PopBack this w = Ok (last xs) w' \<and>
           deque_inv w' this (butlast as) (butlast xs) \<and>
           only_touched (set as) w w' \<and>
           (\<forall>other. other \<noteq> this \<longrightarrow> deques w' other = deques w other) \<and>
           avail w \<le> avail w' \<and>
           allocator (deques w' this) = allocator (deques w this) \<and>
           mem w' (last as) = None \<and> map_of (blocks w') (last as) = None \<and>
           allocEls w' = (allocEls w)(allocStrategy (allocator (deques w this)) :=
                           remove1 (last as) (allocEls w (allocStrategy (allocator (deques w this)))))"
proof -
  let ?d = "deques w this"
  let ?s = "allocStrategy (allocator ?d)"
  have s: "?s \<noteq> 0" and seg: "dseg (mem w) 0 (start ?d) as xs 0"
    and tl: "tail ?d = (if as = [] then 0 else last as)" and dist: "distinct as"
    and own: "\<forall>a \<in> set as. a \<in> set (allocEls w ?s) \<and> map_of (blocks w) a \<noteq> None"
    using inv by (auto simp: deque_inv_def)
  have len: "length as = length xs" using seg by (rule dseg_length)
  obtain bs a where as: "as = bs @ [a]" using ne by (cases as rule: rev_cases) auto
  then obtain ys y where xs: "xs = ys @ [y]" using len by (cases xs rule: rev_cases) auto
  have len': "length bs = length ys" using len as xs by simp
  have snoc: "dseg (mem w) 0 (start ?d) bs ys a" "a \<noteq> 0"
    and "\<exists>n. mem w a = Some n \<and> prev_node n = (if bs = [] then 0 else last bs) \<and> data n = y"
    using seg unfolding as xs dseg_snoc[OF len'] by (auto split: option.splits)
  then obtain n where n: "mem w a = Some n" "prev_node n = (if bs = [] then 0 else last bs)" "data n = y"
    by blast
  obtain k where k: "map_of (blocks w) a = Some k" using own as by auto
  have tr: "a \<in> set (allocEls w ?s)" using own as by auto
  have anot: "a \<notin> set bs" using dist as by auto
  let ?w1 = "node_freed ?s a k w"
  have de: "single_allocator_dealloc (allocator ?d) a w = Ok () ?w1"
    by (rule dealloc_ok[OF s snoc(2) tr k])
  have ta: "tail ?d = a" using tl as by simp
  have own': "\<forall>b \<in> set bs. b \<in> set (remove1 a (allocEls w ?s)) \<and>
                 map_of (filter (\<lambda>b. fst b \<noteq> a) (blocks w)) b \<noteq> None"
  proof
    fix b assume b: "b \<in> set bs"
    then have ba: "b \<noteq> a" using anot by auto
    have "b \<in> set (allocEls w ?s)" "map_of (blocks w) b \<noteq> None" using own b unfolding as by auto
    then show "b \<in> set (remove1 a (allocEls w ?s)) \<and>
                 map_of (filter (\<lambda>b. fst b \<noteq> a) (blocks w)) b \<noteq> None"
      using ba by (simp add: map_of_filter_other)
  qed
  have gone: "map_of (filter (\<lambda>b. fst b \<noteq> a) (blocks w)) a = None"
    by (auto simp: map_of_eq_None_iff)
  show ?thesis
  proof (cases "bs = []")
    case True
    let ?w' = "set_start this 0 (set_tail this 0 ?w1)"
    have "PopBack this w = Ok (last xs) ?w'"
      unfolding PopBack_def ta using snoc(2) n True xs
      by (simp add: de result_bind_def Let_def)
    moreover have "deque_inv ?w' this (butlast as) (butlast xs)"
      using True as xs len' s by (simp add: deque_inv_def set_start_def set_tail_def node_freed_def)
    moreover have "only_touched (set as) w ?w'"
      using only_touched_freed[of a "set as" w ?s k] as
      by (simp add: only_touched_def set_start_def set_tail_def)
    ultimately show ?thesis using as gone
      by (auto simp: set_start_def set_tail_def node_freed_def)
  next
    case False
    let ?q = "last bs"
    have q1: "?q \<in> set bs" using False by (rule last_in_set)
    have q: "?q \<in> set bs" "?q \<noteq> a" "?q \<noteq> 0" using q1 anot dseg_nonzero[OF snoc(1)]
      by metis+
    obtain nq where nq: "mem w ?q = Some nq" using dseg_live[OF snoc(1) q(1)] by auto
    let ?m' = "(mem w)(a := None, ?q \<mapsto> nq\<lparr>next_node := 0\<rparr>)"
    let ?w' = "(set_tail this ?q ?w1)\<lparr>mem := ?m'\<rparr>"
    have "PopBack this w = Ok (last xs) ?w'"
      unfolding PopBack_def ta using snoc(2) n False xs q nq
      by (simp add: de result_bind_def Let_def set_tail_def set_next_def node_freed_def)
    moreover have "dseg ?m' 0 (start ?d) bs ys 0"
    proof -
      have "dseg ((mem w)(?q \<mapsto> nq\<lparr>next_node := 0\<rparr>)) 0 (start ?d) bs ys 0"
        using dist as by (intro dseg_set_last_next[OF snoc(1) False _ nq]) simp
      moreover have "?m' = ((mem w)(?q \<mapsto> nq\<lparr>next_node := 0\<rparr>))(a := None)"
        by (rule fun_upd_twist) (use q in auto)
      ultimately show ?thesis using dseg_upd_other[OF anot] by metis
    qed
    then have "deque_inv ?w' this (butlast as) (butlast xs)"
      using s dist own' False as xs
      by (simp add: deque_inv_def set_tail_def node_freed_def)
    moreover have "only_touched (set as) w ?w'"
      using only_touched_freed[of a "set as" w ?s k] as q
      by (auto simp: only_touched_def set_tail_def node_freed_def)
    ultimately show ?thesis using as gone q
      by (auto simp: set_tail_def node_freed_def)
  qed
qed

lemma PopFront_ok:
  assumes inv: "deque_inv w this as xs" and ne: "as \<noteq> []"
  shows "\<exists>w'. PopFront this w = Ok (hd xs) w' \<and>
           deque_inv w' this (tl as) (tl xs) \<and>
           only_touched (set as) w w' \<and>
           (\<forall>other. other \<noteq> this \<longrightarrow> deques w' other = deques w other) \<and>
           avail w \<le> avail w' \<and>
           allocator (deques w' this) = allocator (deques w this) \<and>
           mem w' (hd as) = None \<and> map_of (blocks w') (hd as) = None \<and>
           allocEls w' = (allocEls w)(allocStrategy (allocator (deques w this)) :=
                           remove1 (hd as) (allocEls w (allocStrategy (allocator (deques w this)))))"
proof -
  let ?d = "deques w this"
  let ?s = "allocStrategy (allocator ?d)"
  have s: "?s \<noteq> 0" and seg: "dseg (mem w) 0 (start ?d) as xs 0"
    and tl: "tail ?d = (if as = [] then 0 else last as)" and dist: "distinct as"
    and own: "\<forall>a \<in> set as. a \<in> set (allocEls w ?s) \<and> map_of (blocks w) a \<noteq> None"
    using inv by (auto simp: deque_inv_def)
  have len: "length as = length xs" using seg by (rule dseg_length)
  obtain a bs where as: "as = a # bs" using ne by (cases as) auto
  then obtain y ys where xs: "xs = y # ys" using len by (cases xs) auto
  obtain n where n: "mem w a = Some n" "data n = y" "dseg (mem w) a (next_node n) bs ys 0"
    and sa: "start ?d = a" "a \<noteq> 0"
    using seg unfolding as xs by (auto split: option.splits)
  obtain k where k: "map_of (blocks w) a = Some k" using own as by auto
  have tr: "a \<in> set (allocEls w ?s)" using own as by auto
  have anot: "a \<notin> set bs" using dist as by auto
  let ?w1 = "node_freed ?s a k w"
  have de: "single_allocator_dealloc (allocator ?d) a w = Ok () ?w1"
    by (rule dealloc_ok[OF s sa(2) tr k])
  have own': "\<forall>b \<in> set bs. b \<in> set (remove1 a (allocEls w ?s)) \<and>
                 map_of (filter (\<lambda>b. fst b \<noteq> a) (blocks w)) b \<noteq> None"
  proof
    fix b assume b: "b \<in> set bs"
    then have ba: "b \<noteq> a" using anot by auto
    have "b \<in> set (allocEls w ?s)" "map_of (blocks w) b \<noteq> None" using own b unfolding as by auto
    then show "b \<in> set (remove1 a (allocEls w ?s)) \<and>
                 map_of (filter (\<lambda>b. fst b \<noteq> a) (blocks w)) b \<noteq> None"
      using ba by (simp add: map_of_filter_other)
  qed
  have gone: "map_of (filter (\<lambda>b. fst b \<noteq> a) (blocks w)) a = None"
    by (auto simp: map_of_eq_None_iff)
  show ?thesis
  proof (cases bs)
    case Nil
    then have nx: "next_node n = 0" "ys = []" using n(3) by (cases ys; simp)+
    let ?w' = "set_tail this 0 (set_start this 0 ?w1)"
    have "PopFront this w = Ok (hd xs) ?w'"
      unfolding PopFront_def sa(1) using sa(2) n nx xs
      by (simp add: de result_bind_def Let_def)
    moreover have "deque_inv ?w' this (tl as) (tl xs)"
      using Nil as xs nx s by (simp add: deque_inv_def set_start_def set_tail_def node_freed_def)
    moreover have "only_touched (set as) w ?w'"
      using only_touched_freed[of a "set as" w ?s k] as
      by (simp add: only_touched_def set_start_def set_tail_def)
    ultimately show ?thesis using as gone
      by (auto simp: set_start_def set_tail_def node_freed_def)
  next
    case (Cons h bs')
    then obtain z zs where ys: "ys = z # zs" using n(3) by (cases ys) auto
    have h: "next_node n = h" "h \<noteq> 0" "h \<noteq> a" "h \<notin> set bs'"
      using n(3) anot dist unfolding Cons ys as by auto
    obtain nh where nh: "mem w h = Some nh" using dseg_live[OF n(3), of h] Cons by auto
    let ?m' = "(mem w)(a := None, h \<mapsto> nh\<lparr>prev_node := 0\<rparr>)"
    let ?w' = "(set_start this h ?w1)\<lparr>mem := ?m'\<rparr>"
    have "PopFront this w = Ok (hd xs) ?w'"
      unfolding PopFront_def sa(1) using sa(2) n h nh xs
      by (simp add: de result_bind_def Let_def set_start_def set_prev_def node_freed_def)
    moreover have "dseg ?m' 0 h bs ys 0"
    proof -
      have "dseg ((mem w)(h \<mapsto> nh\<lparr>prev_node := 0\<rparr>)) 0 h (h # bs') ys 0"
        using n(3) h nh unfolding Cons by (intro dseg_set_hd_prev) auto
      moreover have "?m' = ((mem w)(h \<mapsto> nh\<lparr>prev_node := 0\<rparr>))(a := None)"
        by (rule fun_upd_twist) (use h in auto)
      ultimately show ?thesis using dseg_upd_other[OF anot] unfolding Cons by metis
    qed
    then have "deque_inv ?w' this (tl as) (tl xs)"
      using s dist own' tl as xs Cons
      by (simp add: deque_inv_def set_start_def node_freed_def)
    moreover have "only_touched (set as) w ?w'"
      using only_touched_freed[of a "set as" w ?s k] as Cons
      by (auto simp: only_touched_def set_start_def node_freed_def)
    ultimately show ?thesis using as gone h
      by (auto simp: set_start_def node_freed_def)
  qed
qed

lemma FreeList_ok:
  assumes "dseg (mem w) pr p as xs 0" "distinct as" "allocStrategy al \<noteq> 0"
    "\<forall>a \<in> set as. a \<in> set (allocEls w (allocStrategy al)) \<and> map_of (blocks w) a \<noteq> None"
  shows "\<exists>w'. FreeList p al w = Some (Ok () w') \<and>
           only_touched (set as) w w' \<and> deques w' = deques w \<and> avail w \<le> avail w' \<and>
           (\<forall>a \<in> set as. mem w' a = None \<and> map_of (blocks w') a = None) \<and>
           (\<forall>s. s \<noteq> allocStrategy al \<longrightarrow> allocEls w' s = allocEls w s) \<and>
           (\<forall>a. mem w a = None \<longrightarrow> mem w' a = None) \<and>
           (\<forall>a. map_of (blocks w) a = None \<longrightarrow> map_of (blocks w') a = None) \<and>
           (\<forall>k. as \<noteq> [] \<and> map_of (blocks w) (hd as) = Some k \<longrightarrow>
                avail w + k + sizeof_list_node \<le> avail w')"
  using assms
proof (induction as arbitrary: w pr p xs)
  case Nil
  then have "p = 0" by (cases xs) auto
  then show ?case by (subst FreeList.simps) (simp add: only_touched_refl)
next
  case (Cons a as)
  let ?s = "allocStrategy al"
  obtain y ys where xs: "xs = y # ys" using Cons.prems(1) by (cases xs) auto
  obtain n where n: "mem w a = Some n" "dseg (mem w) a (next_node n) as ys 0"
    and pa: "p = a" "a \<noteq> 0"
    using Cons.prems(1) unfolding xs by (auto split: option.splits)
  obtain k where k: "map_of (blocks w) a = Some k" using Cons.prems(4) by auto
  have tr: "a \<in> set (allocEls w ?s)" using Cons.prems(4) by auto
  have anot: "a \<notin> set as" "distinct as" using Cons.prems(2) by auto
  let ?w1 = "node_freed ?s a k w"
  have de: "single_allocator_dealloc al a w = Ok () ?w1"
    by (rule dealloc_ok[OF Cons.prems(3) pa(2) tr k])
  have seg1: "dseg (mem ?w1) a (next_node n) as ys 0"
    using n(2) anot(1) by (simp add: node_freed_def dseg_upd_other)
  have own1: "\<forall>b \<in> set as. b \<in> set (allocEls ?w1 ?s) \<and> map_of (blocks ?w1) b \<noteq> None"
  proof
    fix b assume b: "b \<in> set as"
    then have ba: "b \<noteq> a" using anot by auto
    have "b \<in> set (allocEls w ?s)" "map_of (blocks w) b \<noteq> None" using Cons.prems(4) b by auto
    then show "b \<in> set (allocEls ?w1 ?s) \<and> map_of (blocks ?w1) b \<noteq> None"
      using ba by (simp add: map_of_filter_other node_freed_def)
  qed
  from Cons.IH[OF seg1 anot(2) Cons.prems(3) own1]
  obtain w' where w': "FreeList (next_node n) al ?w1 = Some (Ok () w')"
    "only_touched (set as) ?w1 w'" "deques w' = deques ?w1" "avail ?w1 \<le> avail w'"
    "\<forall>a \<in> set as. mem w' a = None \<and> map_of (blocks w') a = None"
    "\<forall>s. s \<noteq> ?s \<longrightarrow> allocEls w' s = allocEls ?w1 s"
    "\<forall>a. mem ?w1 a = None \<longrightarrow> mem w' a = None"
    "\<forall>a. map_of (blocks ?w1) a = None \<longrightarrow> map_of (blocks w') a = None"
    by blast
  have "FreeList p al w = Some (Ok () w')"
    by (subst FreeList.simps) (simp add: pa n de w'(1))
  moreover have "only_touched (set (a # as)) w w'"
    by (rule only_touched_trans[OF only_touched_freed[of a _ w ?s k]
          only_touched_mono[OF w'(2)]]) auto
  moreover have "mem w' a = None \<and> map_of (blocks w') a = None"
  proof -
    have g: "mem ?w1 a = None" "map_of (blocks ?w1) a = None"
      by (auto simp: node_freed_def map_of_eq_None_iff)
    show ?thesis using g w'(7,8) by blast
  qed
  moreover have "\<forall>b. mem w b = None \<longrightarrow> mem w' b = None"
    using w'(7) by (simp add: node_freed_def)
  moreover have "\<forall>b. map_of (blocks w) b = None \<longrightarrow> map_of (blocks w') b = None"
  proof (intro allI impI)
    fix b assume "map_of (blocks w) b = None"
    then have "map_of (blocks ?w1) b = None"
      by (auto simp: node_freed_def map_of_eq_None_iff)
    then show "map_of (blocks w') b = None" using w'(8) by blast
  qed
  moreover have "\<forall>j. map_of (blocks w) a = Some j \<longrightarrow> avail w + j + sizeof_list_node \<le> avail w'"
    using w'(4) k by (simp add: node_freed_def)
  ultimately show ?case using w'(3,4,5,6) by (simp add: node_freed_def)
qed

subsection \<open>The example state\<close>

lemma world_1234_inv: "deque_inv world_1234 1 [4, 3, 1, 2] [1, 2, 3, 4]"
  by (simp add: world_1234_def deque_inv_def)

lemma world_1234_inv2: "deque_inv world_1234 2 [] []"
  by (simp add: world_1234_def deque_inv_def)

lemma world_1234_avail: "avail world_1234 = 808"
  by (simp add: world_1234_def)

subsection \<open>The ends of a well-formed deque\<close>

lemma deque_inv_ends:
  assumes "deque_inv w this as xs" "as \<noteq> []"
  shows "start (deques w this) = hd as" "tail (deques w this) = last as"
    "\<exists>n. get_node w (hd as) = Some n \<and> data n = hd xs"
    "\<exists>n. get_node w (last as) = Some n \<and> data n = last xs"
proof -
  let ?d = "deques w this"
  have seg: "dseg (mem w) 0 (start ?d) as xs 0"
    and tl: "tail ?d = (if as = [] then 0 else last as)"
    using assms(1) by (auto simp: deque_inv_def)
  have len: "length as = length xs" using seg by (rule dseg_length)
  show "tail ?d = last as" using tl assms(2) by simp
  obtain a bs where as: "as = a # bs" using assms(2) by (cases as) auto
  then obtain y ys where xs: "xs = y # ys" using len by (cases xs) auto
  show "start ?d = hd as" using seg unfolding as xs by auto
  show "\<exists>n. get_node w (hd as) = Some n \<and> data n = hd xs"
    using seg unfolding as xs by (auto split: option.splits)
  obtain cs c where as': "as = cs @ [c]" using assms(2) by (cases as rule: rev_cases) auto
  then obtain zs z where xs': "xs = zs @ [z]" using len by (cases xs rule: rev_cases) auto
  have len': "length cs = length zs" using len as' xs' by simp
  show "\<exists>n. get_node w (last as) = Some n \<and> data n = last xs"
    using seg unfolding as' xs' dseg_snoc[OF len'] by (auto split: option.splits)
qed

lemma deque_inv_empty:
  "deque_inv w this [] xs \<Longrightarrow> xs = [] \<and> start (deques w this) = 0 \<and> tail (deques w this) = 0"
  by (cases xs) (auto simp: deque_inv_def)

subsection \<open>CopyList\<close>

text \<open>
  The loop invariant: the destination built so far is a segment that ends in
  \<^verbatim>\<open>prev\<close>, on fresh nodes of the destination's strategy, and the rest of the source
  is untouched.
\<close>

lemma only_touched_step:
  assumes "only_touched A w w1" "only_touched B w1 w2"
    "\<forall>a \<in> B. a \<in> A \<or> map_of (blocks w) a = None"
  shows "only_touched A w w2"
  using assms unfolding only_touched_def by metis

lemma map_of_allocated:
  "map_of (blocks w) a \<noteq> None \<Longrightarrow> map_of (blocks (node_allocated s p n w)) a \<noteq> None"
  by (auto simp: node_allocated_def)

lemma copy_loop_ok:
  assumes src: "dseg (mem w) spr nd as xs 0"
    and dst: "dseg (mem w) 0 dstart bs ys q" "bs \<noteq> []" "last bs = prev" "distinct bs"
    and disj: "set as \<inter> set bs = {}"
    and srclive: "\<forall>a \<in> set as. map_of (blocks w) a \<noteq> None"
    and dstown: "\<forall>b \<in> set bs. b \<in> set (allocEls w s) \<and> map_of (blocks w) b \<noteq> None"
    and s: "allocStrategy (allocator (deques w this)) = s" "s \<noteq> 0"
    and room: "length as * node_cost \<le> avail w"
  shows "\<exists>w' cs q'. copy_loop this nd prev w = Some (Ok (last (bs @ cs)) w') \<and>
           dseg (mem w') 0 dstart (bs @ cs) (ys @ xs) q' \<and> distinct (bs @ cs) \<and>
           length cs = length as \<and>
           (\<forall>c \<in> set cs. map_of (blocks w) c = None) \<and>
           (\<forall>b \<in> set (bs @ cs). b \<in> set (allocEls w' s) \<and> map_of (blocks w') b \<noteq> None) \<and>
           only_touched {prev} w w' \<and> deques w' = deques w \<and>
           avail w' = avail w - length as * node_cost \<and>
           (\<forall>t. t \<noteq> s \<longrightarrow> allocEls w' t = allocEls w t)"
  using assms
proof (induction as arbitrary: w spr nd xs bs ys q prev)
  case Nil
  then have "nd = 0" "xs = []" by (cases xs; simp)+
  then show ?case using Nil
    by (subst copy_loop.simps) (auto simp: only_touched_refl intro!: exI[of _ "[]"])
next
  case (Cons a as)
  note src = Cons.prems(1) and dseg_bs = Cons.prems(2) and bs_ne = Cons.prems(3)
    and last_bs = Cons.prems(4) and dist_bs = Cons.prems(5) and disj = Cons.prems(6)
    and srclive = Cons.prems(7) and dstown = Cons.prems(8) and s_eq = Cons.prems(9)
    and s_ne = Cons.prems(10) and room = Cons.prems(11)
  obtain x xs' where xs: "xs = x # xs'" using src by (cases xs) auto
  obtain n where n: "mem w a = Some n" "data n = x" "dseg (mem w) a (next_node n) as xs' 0"
    and nd: "nd = a" "a \<noteq> 0"
    using src unfolding xs by (auto split: option.splits)
  let ?tmp = "next_block w"
  let ?n' = "\<lparr>next_node = 0, prev_node = prev, data = x\<rparr>"
  let ?w1 = "node_allocated s ?tmp ?n' w"
  have fresh: "map_of (blocks w) ?tmp = None" "?tmp \<noteq> 0" by (rule next_block_fresh)+
  have room1: "node_cost \<le> avail w" using room by simp
  have al: "single_allocator_alloc (allocator (deques w this)) (node_ctor x prev 0) w = Ok ?tmp ?w1"
    using alloc_ok[of "allocator (deques w this)" w "node_ctor x prev 0" ?n'] s_eq s_ne room1
    by (simp add: node_ctor_def)
  have prev_in: "prev \<in> set bs" using bs_ne last_bs last_in_set by metis
  then have prev0: "prev \<noteq> 0" using dseg_nonzero[OF dseg_bs] by metis
  have prev_live: "map_of (blocks w) prev \<noteq> None" using dstown prev_in by blast
  then have prev_tmp: "prev \<noteq> ?tmp" using fresh by metis
  obtain np where np: "mem w prev = Some np" using dseg_live[OF dseg_bs prev_in] by auto
  have a_live: "map_of (blocks w) a \<noteq> None" using srclive by simp
  then have a_tmp: "a \<noteq> ?tmp" using fresh by metis
  have a_prev: "a \<noteq> prev" using disj prev_in by auto
  let ?m2 = "(mem w)(?tmp \<mapsto> ?n', prev \<mapsto> np\<lparr>next_node := ?tmp\<rparr>)"
  let ?w2 = "?w1\<lparr>mem := ?m2\<rparr>"
  have sn: "set_next prev ?tmp ?w1 = Ok () ?w2"
    using prev0 prev_tmp np by (simp add: set_next_def node_allocated_def)
  have g1: "get_node ?w2 a = Some n" using nd a_tmp a_prev n by (simp add: node_allocated_def)
  have g2: "get_node ?w2 prev = Some (np\<lparr>next_node := ?tmp\<rparr>)"
    using prev0 by (simp add: node_allocated_def)
  have unfold: "copy_loop this nd prev w = copy_loop this (next_node n) ?tmp ?w2"
    apply (subst copy_loop.simps)
    using nd n al sn g1 g2 by simp
  have tmp_bs: "?tmp \<notin> set bs" using dstown fresh by blast
  have tmp_as: "?tmp \<notin> set as" using srclive fresh by auto
  have prev_as: "prev \<notin> set as" using disj prev_in by auto
  have len: "length bs = length ys" using dseg_bs by (rule dseg_length)
  \<comment> \<open>the premises of the induction hypothesis in the state after one round\<close>
  have p1: "dseg (mem ?w2) a (next_node n) as xs' 0"
  proof -
    have "dseg ?m2 a (next_node n) as xs' 0 = dseg (mem w) a (next_node n) as xs' 0"
      by (rule dseg_cong) (use tmp_as prev_as in auto)
    then show ?thesis using n(3) by (simp add: node_allocated_def)
  qed
  have p2: "dseg (mem ?w2) 0 dstart (bs @ [?tmp]) (ys @ [x]) 0"
  proof -
    have "dseg ((mem w)(prev \<mapsto> np\<lparr>next_node := ?tmp\<rparr>)) 0 dstart bs ys ?tmp"
      using dseg_set_last_next[OF dseg_bs bs_ne dist_bs] np last_bs by simp
    moreover have "?m2 = ((mem w)(prev \<mapsto> np\<lparr>next_node := ?tmp\<rparr>))(?tmp \<mapsto> ?n')"
      by (rule fun_upd_twist[symmetric]) (use prev_tmp in auto)
    ultimately have "dseg ?m2 0 dstart bs ys ?tmp"
      using dseg_upd_other[OF tmp_bs] by metis
    then show ?thesis
      using len fresh(2) prev_tmp bs_ne last_bs
      by (simp add: dseg_snoc node_allocated_def)
  qed
  have p3: "bs @ [?tmp] \<noteq> []" "last (bs @ [?tmp]) = ?tmp" "distinct (bs @ [?tmp])"
    using dist_bs tmp_bs by auto
  have p4: "set as \<inter> set (bs @ [?tmp]) = {}" using disj tmp_as by auto
  have p5: "\<forall>c \<in> set as. map_of (blocks ?w2) c \<noteq> None"
    using srclive by (auto simp: node_allocated_def)
  have p6: "\<forall>b \<in> set (bs @ [?tmp]). b \<in> set (allocEls ?w2 s) \<and> map_of (blocks ?w2) b \<noteq> None"
    using dstown by (auto simp: node_allocated_def)
  have p7: "allocStrategy (allocator (deques ?w2 this)) = s"
    using s_eq by (simp add: node_allocated_def)
  have p8: "length as * node_cost \<le> avail ?w2"
    using room by (simp add: node_allocated_def)
  from Cons.IH[OF p1 p2 p3 p4 p5 p6 p7 s_ne p8]
  obtain w' cs q' where r:
    "copy_loop this (next_node n) ?tmp ?w2 = Some (Ok (last ((bs @ [?tmp]) @ cs)) w')"
    "dseg (mem w') 0 dstart ((bs @ [?tmp]) @ cs) ((ys @ [x]) @ xs') q'"
    "distinct ((bs @ [?tmp]) @ cs)" "length cs = length as"
    "\<forall>c \<in> set cs. map_of (blocks ?w2) c = None"
    "\<forall>b \<in> set ((bs @ [?tmp]) @ cs). b \<in> set (allocEls w' s) \<and> map_of (blocks w') b \<noteq> None"
    "only_touched {?tmp} ?w2 w'" "deques w' = deques ?w2"
    "avail w' = avail ?w2 - length as * node_cost"
    "\<forall>t. t \<noteq> s \<longrightarrow> allocEls w' t = allocEls ?w2 t"
    by blast
  have c1: "copy_loop this nd prev w = Some (Ok (last (bs @ (?tmp # cs))) w')"
    using unfold r(1) by simp
  have c2: "dseg (mem w') 0 dstart (bs @ (?tmp # cs)) (ys @ xs) q'"
    using r(2) xs by simp
  have c3: "distinct (bs @ (?tmp # cs))" using r(3) by simp
  have c4: "length (?tmp # cs) = length (a # as)" using r(4) by simp
  have c5: "\<forall>c \<in> set (?tmp # cs). map_of (blocks w) c = None"
  proof
    fix c assume "c \<in> set (?tmp # cs)"
    then consider "c = ?tmp" | "c \<in> set cs" by auto
    then show "map_of (blocks w) c = None"
    proof cases
      case 1 then show ?thesis using fresh by simp
    next
      case 2
      then have "map_of (blocks ?w2) c = None" using r(5) by blast
      then show ?thesis by (auto simp: node_allocated_def map_of_eq_None_iff)
    qed
  qed
  have c6: "\<forall>b \<in> set (bs @ (?tmp # cs)). b \<in> set (allocEls w' s) \<and> map_of (blocks w') b \<noteq> None"
    using r(6) by simp
  have t1: "only_touched {prev} w ?w2"
    using fresh by (auto simp: only_touched_def node_allocated_def)
  have c7: "only_touched {prev} w w'"
    by (rule only_touched_step[OF t1 r(7)]) (use fresh in auto)
  have c8: "deques w' = deques w" using r(8) by (simp add: node_allocated_def)
  have c9: "avail w' = avail w - length (a # as) * node_cost"
    using r(9) by (simp add: node_allocated_def)
  have c10: "\<forall>t. t \<noteq> s \<longrightarrow> allocEls w' t = allocEls w t"
    using r(10) by (simp add: node_allocated_def)
  show ?case using c1 c2 c3 c4 c5 c6 c7 c8 c9 c10 by blast
qed


lemma CopyList_ok:
  assumes src: "dseg (mem w) 0 p as xs 0"
    and srclive: "\<forall>a \<in> set as. map_of (blocks w) a \<noteq> None"
    and s: "allocStrategy (allocator (deques w this)) = s" "s \<noteq> 0"
    and room: "length as * node_cost \<le> avail w"
  shows "\<exists>w' bs. CopyList this p w = Some (Ok () w') \<and>
           deque_inv w' this bs xs \<and> length bs = length as \<and>
           (\<forall>b \<in> set bs. map_of (blocks w) b = None) \<and>
           only_touched {} w w' \<and>
           (\<forall>other. other \<noteq> this \<longrightarrow> deques w' other = deques w other) \<and>
           allocator (deques w' this) = allocator (deques w this) \<and>
           avail w' = avail w - length as * node_cost \<and>
           (\<forall>t. t \<noteq> s \<longrightarrow> allocEls w' t = allocEls w t)"
proof (cases as)
  case Nil
  then have p: "p = 0" "xs = []" using src by (cases xs; simp)+
  let ?w' = "set_tail this 0 (set_start this 0 w)"
  have "CopyList this p w = Some (Ok () ?w')" using p by (simp add: CopyList_def)
  moreover have "deque_inv ?w' this [] xs"
    using p s by (simp add: deque_inv_def set_tail_def set_start_def)
  moreover have "only_touched {} w ?w'"
    by (simp add: only_touched_def set_tail_def set_start_def)
  ultimately show ?thesis using Nil
    by (intro exI[of _ ?w'] exI[of _ "[]"]) (simp add: set_tail_def set_start_def)
next
  case (Cons a as')
  obtain x xs' where xs: "xs = x # xs'" using src Cons by (cases xs) auto
  obtain n where n: "mem w a = Some n" "prev_node n = 0" "data n = x"
      "dseg (mem w) a (next_node n) as' xs' 0"
    and pa: "p = a" "a \<noteq> 0"
    using src unfolding Cons xs by (auto split: option.splits)
  let ?p1 = "next_block w"
  let ?w1 = "node_allocated s ?p1 n w"
  let ?w2 = "set_start this ?p1 ?w1"
  have fresh: "map_of (blocks w) ?p1 = None" "?p1 \<noteq> 0" by (rule next_block_fresh)+
  have room1: "node_cost \<le> avail w" using room Cons by simp
  have al: "single_allocator_alloc (allocator (deques w this)) (node_copy_ctor a) w = Ok ?p1 ?w1"
    using alloc_ok[of "allocator (deques w this)" w "node_copy_ctor a" n] s room1 n(1) pa(2)
    by (simp add: node_copy_ctor_def)
  have a_live: "map_of (blocks w) a \<noteq> None" using srclive Cons by simp
  then have a_p1: "a \<noteq> ?p1" using fresh by metis
  have p1_as: "?p1 \<notin> set as'" using srclive fresh Cons by auto
  have g: "get_node ?w2 a = Some n"
    using pa a_p1 n(1) by (simp add: set_start_def node_allocated_def)
  have st2: "start (deques ?w2 this) = ?p1" by (simp add: set_start_def)
  have unfold: "CopyList this p w = copy_rest this (next_node n) ?w2"
    unfolding CopyList_def using pa al g by (simp add: Let_def)
  \<comment> \<open>the loop\<close>
  have q1: "dseg (mem ?w2) a (next_node n) as' xs' 0"
    using n(4) p1_as by (simp add: set_start_def node_allocated_def dseg_upd_other)
  have q2: "dseg (mem ?w2) 0 ?p1 [?p1] [x] (next_node n)"
    using fresh n by (simp add: set_start_def node_allocated_def)
  have q3: "set as' \<inter> set [?p1] = {}" using p1_as by simp
  have q4: "\<forall>c \<in> set as'. map_of (blocks ?w2) c \<noteq> None"
    using srclive Cons by (auto simp: set_start_def node_allocated_def)
  have q5: "\<forall>b \<in> set [?p1]. b \<in> set (allocEls ?w2 s) \<and> map_of (blocks ?w2) b \<noteq> None"
    by (simp add: set_start_def node_allocated_def)
  have q6: "allocStrategy (allocator (deques ?w2 this)) = s"
    using s by (simp add: set_start_def node_allocated_def)
  have q7: "length as' * node_cost \<le> avail ?w2"
    using room Cons by (simp add: set_start_def node_allocated_def)
  from copy_loop_ok[OF q1 q2 _ _ _ q3 q4 q5 q6 s(2) q7, of ?p1]
  obtain w3 cs q' where r:
    "copy_loop this (next_node n) ?p1 ?w2 = Some (Ok (last ([?p1] @ cs)) w3)"
    "dseg (mem w3) 0 ?p1 ([?p1] @ cs) ([x] @ xs') q'"
    "distinct ([?p1] @ cs)" "length cs = length as'"
    "\<forall>c \<in> set cs. map_of (blocks ?w2) c = None"
    "\<forall>b \<in> set ([?p1] @ cs). b \<in> set (allocEls w3 s) \<and> map_of (blocks w3) b \<noteq> None"
    "only_touched {?p1} ?w2 w3" "deques w3 = deques ?w2"
    "avail w3 = avail ?w2 - length as' * node_cost"
    "\<forall>t. t \<noteq> s \<longrightarrow> allocEls w3 t = allocEls ?w2 t"
    by auto
  let ?bs = "?p1 # cs"
  let ?l = "last ?bs"
  have l_in: "?l \<in> set ?bs" by (rule last_in_set) simp
  have seg3: "dseg (mem w3) 0 ?p1 ?bs xs q'" using r(2) xs by simp
  have l0: "?l \<noteq> 0" using dseg_nonzero[OF seg3] l_in by metis
  obtain nl where nl: "mem w3 ?l = Some nl" using dseg_live[OF seg3 l_in] by auto
  let ?m' = "(mem w3)(?l \<mapsto> nl\<lparr>next_node := 0\<rparr>)"
  let ?w' = "(set_tail this ?l w3)\<lparr>mem := ?m'\<rparr>"
  have res: "CopyList this p w = Some (Ok () ?w')"
    unfolding unfold copy_rest_def st2 using r(1) l0 nl
    by (simp add: loop_bind_def set_next_def set_tail_def)
  have seg': "dseg ?m' 0 ?p1 ?bs xs 0"
    using dseg_set_last_next[OF seg3 _ _ nl] r(3) by simp
  have inv': "deque_inv ?w' this ?bs xs"
    using seg' r(3,6,8) s
    by (simp add: deque_inv_def set_tail_def set_start_def node_allocated_def)
  have fresh_bs: "\<forall>b \<in> set ?bs. map_of (blocks w) b = None"
  proof
    fix b assume "b \<in> set ?bs"
    then consider "b = ?p1" | "b \<in> set cs" by auto
    then show "map_of (blocks w) b = None"
    proof cases
      case 1 then show ?thesis using fresh by simp
    next
      case 2
      then have "map_of (blocks ?w2) b = None" using r(5) by blast
      then show ?thesis by (auto simp: set_start_def node_allocated_def map_of_eq_None_iff)
    qed
  qed
  have t1: "only_touched {} w ?w2"
    using fresh by (auto simp: only_touched_def set_start_def node_allocated_def)
  have t2: "only_touched {} w w3"
    by (rule only_touched_step[OF t1 r(7)]) (use fresh in auto)
  have t3: "only_touched {?l} w3 ?w'"
    by (auto simp: only_touched_def set_tail_def)
  have t4: "only_touched {} w ?w'"
  proof (rule only_touched_step[OF t2 t3])
    have "map_of (blocks w) ?l = None" using fresh_bs l_in by metis
    then show "\<forall>a \<in> {?l}. a \<in> {} \<or> map_of (blocks w) a = None" by simp
  qed
  have "\<forall>other. other \<noteq> this \<longrightarrow> deques ?w' other = deques w other"
    using r(8) by (simp add: set_tail_def set_start_def node_allocated_def)
  moreover have "allocator (deques ?w' this) = allocator (deques w this)"
    using r(8) by (simp add: set_tail_def set_start_def node_allocated_def)
  moreover have "avail ?w' = avail w - length as * node_cost"
    using r(9) Cons by (simp add: set_tail_def set_start_def node_allocated_def)
  moreover have "\<forall>t. t \<noteq> s \<longrightarrow> allocEls ?w' t = allocEls w t"
    using r(10) by (simp add: set_tail_def set_start_def node_allocated_def)
  moreover have "length ?bs = length as" using r(4) Cons by simp
  ultimately show ?thesis using res inv' fresh_bs t4 by blast
qed

subsection \<open>Clear, and runs of mutations\<close>

lemma Clear_ok:
  assumes inv: "deque_inv w this as xs"
  shows "\<exists>w'. Clear this w = Some (Ok () w') \<and> deque_inv w' this [] [] \<and>
           only_touched (set as) w w' \<and>
           (\<forall>other. other \<noteq> this \<longrightarrow> deques w' other = deques w other) \<and>
           allocator (deques w' this) = allocator (deques w this) \<and>
           avail w \<le> avail w' \<and>
           (\<forall>a \<in> set as. mem w' a = None \<and> map_of (blocks w') a = None)"
proof -
  let ?d = "deques w this"
  have s: "allocStrategy (allocator ?d) \<noteq> 0" and seg: "dseg (mem w) 0 (start ?d) as xs 0"
    and dist: "distinct as"
    and own: "\<forall>a \<in> set as. a \<in> set (allocEls w (allocStrategy (allocator ?d))) \<and>
                 map_of (blocks w) a \<noteq> None"
    using inv by (auto simp: deque_inv_def)
  from FreeList_ok[OF seg dist s own]
  obtain w1 where f: "FreeList (start ?d) (allocator ?d) w = Some (Ok () w1)"
    "only_touched (set as) w w1" "deques w1 = deques w" "avail w \<le> avail w1"
    "\<forall>a \<in> set as. mem w1 a = None \<and> map_of (blocks w1) a = None"
    by blast
  let ?w' = "set_tail this 0 (set_start this 0 w1)"
  have "Clear this w = Some (Ok () ?w')"
    using f(1) by (simp add: Clear_def loop_bind_def)
  moreover have "deque_inv ?w' this [] []"
    using s f(3) by (simp add: deque_inv_def set_tail_def set_start_def)
  moreover have "only_touched (set as) w ?w'"
    using f(2) by (simp add: only_touched_def set_tail_def set_start_def)
  ultimately show ?thesis using f(3,4,5)
    by (intro exI[of _ ?w']) (simp add: set_tail_def set_start_def)
qed

lemma PushBack_no_room:
  assumes "deque_inv w this as xs" "\<not> node_cost \<le> avail w"
  shows "PushBack this x w \<noteq> Ok u w'" "PushFront this x w \<noteq> Ok u w'"
  using assms(2) alloc_only_with_room[of "allocator (deques w this)" _ w]
  by (auto simp: PushBack_def PushFront_def result_bind_def split: result.splits)

lemma advance_ok:
  "dseg (mem w) pr p as xs 0 \<Longrightarrow> i \<le> length as \<Longrightarrow>
   advance i \<lparr>node = p\<rparr> w = Ok \<lparr>node = (as @ [0]) ! i\<rparr> w"
proof (induction as arbitrary: pr p xs i)
  case Nil
  then have "p = 0" "i = 0" by (cases xs; simp)+
  then show ?case by simp
next
  case (Cons a as)
  obtain x xs' where xs: "xs = x # xs'" using Cons.prems(1) by (cases xs) auto
  obtain n where n: "mem w a = Some n" "dseg (mem w) a (next_node n) as xs' 0"
    and pa: "p = a" "a \<noteq> 0"
    using Cons.prems(1) unfolding xs by (auto split: option.splits)
  show ?case
  proof (cases i)
    case 0
    then show ?thesis using pa by simp
  next
    case (Suc k)
    then have "k \<le> length as" using Cons.prems(2) by simp
    from Cons.IH[OF n(2) this] show ?thesis
      using Suc pa n(1) by (simp add: iterator_pre_incr_def result_bind_def)
  qed
qed

lemma advance_past_end:
  "dseg (mem w) pr p as xs 0 \<Longrightarrow> length as < i \<Longrightarrow>
   advance i \<lparr>node = p\<rparr> w = Thrown ''Try to use end iterator'' w"
proof (induction as arbitrary: pr p xs i)
  case Nil
  then have "p = 0" by (cases xs) auto
  moreover obtain k where "i = Suc k" using Nil.prems(2) by (cases i) auto
  ultimately show ?case by (simp add: iterator_pre_incr_def result_bind_def)
next
  case (Cons a as)
  obtain x xs' where xs: "xs = x # xs'" using Cons.prems(1) by (cases xs) auto
  obtain n where n: "mem w a = Some n" "dseg (mem w) a (next_node n) as xs' 0"
    and pa: "p = a" "a \<noteq> 0"
    using Cons.prems(1) unfolding xs by (auto split: option.splits)
  obtain k where k: "i = Suc k" "length as < k" using Cons.prems(2) by (cases i) auto
  from Cons.IH[OF n(2) k(2)] show ?case
    using k(1) pa n(1) by (simp add: iterator_pre_incr_def result_bind_def)
qed

lemma dseg_write_data:
  "dseg m pr p as xs q \<Longrightarrow> distinct as \<Longrightarrow> i < length as \<Longrightarrow> m (as ! i) = Some n \<Longrightarrow>
   dseg (m(as ! i \<mapsto> n\<lparr>data := v\<rparr>)) pr p as (xs[i := v]) q"
proof (induction m pr p as xs q arbitrary: i rule: dseg.induct)
  case (2 m pr p a as x xs q)
  obtain na where na: "m a = Some na" "prev_node na = pr" "data na = x"
    "dseg m a (next_node na) as xs q" and pa: "p = a" "a \<noteq> 0"
    using "2.prems"(1) by (auto split: option.splits)
  have anot: "a \<notin> set as" "distinct as" using "2.prems"(2) by auto
  show ?case
  proof (cases i)
    case 0
    then have nn: "n = na" using "2.prems"(4) na(1) by simp
    have "dseg (m(a \<mapsto> na\<lparr>data := v\<rparr>)) a (next_node na) as xs q"
      using dseg_upd_other[OF anot(1)] na(4) by metis
    then show ?thesis using 0 pa na nn by (simp add: fun_upd_def)
  next
    case (Suc k)
    then have k: "k < length as" "m (as ! k) = Some n" using "2.prems"(3,4) by simp_all
    then have "as ! k \<noteq> a" using anot(1) nth_mem by metis
    moreover have "dseg (m(as ! k \<mapsto> n\<lparr>data := v\<rparr>)) a (next_node na) as (xs[k := v]) q"
      by (rule "2.IH"[OF na(1) na(4) anot(2) k])
    ultimately show ?thesis using Suc pa na by (simp add: fun_upd_def)
  qed
qed auto

lemma mutate_ok:
  assumes inv: "deque_inv w d as xs" and run: "mutate m d w = Some (Ok u w')"
  shows "\<exists>as' xs'. deque_inv w' d as' xs' \<and>
           (\<forall>a \<in> set as'. a \<in> set as \<or> map_of (blocks w) a = None) \<and>
           only_touched (set as) w w' \<and>
           (\<forall>other. other \<noteq> d \<longrightarrow> deques w' other = deques w other)"
proof (cases m)
  case (MPushBack x)
  then have r: "PushBack d x w = Ok u w'" using run by simp
  then have room: "node_cost \<le> avail w" using PushBack_no_room(1)[OF inv] by fastforce
  from PushBack_ok[OF inv room, of x] r
  have "deque_inv w' d (as @ [next_block w]) (xs @ [x])" "only_touched (set as) w w'"
    "\<forall>other. other \<noteq> d \<longrightarrow> deques w' other = deques w other" by auto
  moreover have "\<forall>a \<in> set (as @ [next_block w]). a \<in> set as \<or> map_of (blocks w) a = None"
    using next_block_fresh(1)[of w] by auto
  ultimately show ?thesis by blast
next
  case (MPushFront x)
  then have r: "PushFront d x w = Ok u w'" using run by simp
  then have room: "node_cost \<le> avail w" using PushBack_no_room(2)[OF inv] by fastforce
  from PushFront_ok[OF inv room, of x] r
  have "deque_inv w' d (next_block w # as) (x # xs)" "only_touched (set as) w w'"
    "\<forall>other. other \<noteq> d \<longrightarrow> deques w' other = deques w other" by auto
  moreover have "\<forall>a \<in> set (next_block w # as). a \<in> set as \<or> map_of (blocks w) a = None"
    using next_block_fresh(1)[of w] by auto
  ultimately show ?thesis by blast
next
  case MPopBack
  then have r: "result_bind (PopBack d w) (\<lambda>_ w'. Ok () w') = Ok u w'" using run by simp
  have ne: "as \<noteq> []"
  proof
    assume "as = []"
    then have "tail (deques w d) = 0" using inv by (simp add: deque_inv_def)
    then show False using r by (simp add: PopBack_def result_bind_def)
  qed
  from PopBack_ok[OF inv ne] r
  have "deque_inv w' d (butlast as) (butlast xs)" "only_touched (set as) w w'"
    "\<forall>other. other \<noteq> d \<longrightarrow> deques w' other = deques w other"
    by (auto simp: result_bind_def)
  moreover have "\<forall>a \<in> set (butlast as). a \<in> set as \<or> map_of (blocks w) a = None"
    using in_set_butlastD by fast
  ultimately show ?thesis by blast
next
  case MPopFront
  then have r: "result_bind (PopFront d w) (\<lambda>_ w'. Ok () w') = Ok u w'" using run by simp
  have ne: "as \<noteq> []"
  proof
    assume "as = []"
    then have "start (deques w d) = 0" using inv deque_inv_empty by metis
    then show False using r by (simp add: PopFront_def result_bind_def)
  qed
  from PopFront_ok[OF inv ne] r
  have "deque_inv w' d (tl as) (tl xs)" "only_touched (set as) w w'"
    "\<forall>other. other \<noteq> d \<longrightarrow> deques w' other = deques w other"
    by (auto simp: result_bind_def)
  moreover have "\<forall>a \<in> set (tl as). a \<in> set as \<or> map_of (blocks w) a = None"
    by (cases as) auto
  ultimately show ?thesis by blast
next
  case MClear
  then have r: "Clear d w = Some (Ok u w')" using run by simp
  from Clear_ok[OF inv] r
  have "deque_inv w' d [] []" "only_touched (set as) w w'"
    "\<forall>other. other \<noteq> d \<longrightarrow> deques w' other = deques w other" by auto
  then show ?thesis by (intro exI[of _ "[]"]) simp
next
  case (MAssign i v)
  let ?st = "start (deques w d)"
  have seg: "dseg (mem w) 0 ?st as xs 0" and dist: "distinct as"
    using inv by (auto simp: deque_inv_def)
  have r: "result_bind (advance i \<lparr>node = ?st\<rparr> w)
             (\<lambda>it w1. result_bind (iterator_deref it w1) (\<lambda>r w2. ref_write r v w2)) = Ok u w'"
    using run MAssign by (simp add: deque_begin_def)
  have i: "i < length as"
  proof (rule ccontr)
    assume "\<not> i < length as"
    then consider "i = length as" | "length as < i" by linarith
    then show False
    proof cases
      case 1
      then have "advance i \<lparr>node = ?st\<rparr> w = Ok \<lparr>node = 0\<rparr> w"
        using advance_ok[OF seg, of i] by simp
      then show False using r by (simp add: result_bind_def iterator_deref_def)
    next
      case 2
      then show False using r advance_past_end[OF seg 2] by (simp add: result_bind_def)
    qed
  qed
  let ?a = "as ! i"
  have a_in: "?a \<in> set as" using i by simp
  then have a0: "?a \<noteq> 0" using dseg_nonzero[OF seg] by metis
  obtain n where n: "mem w ?a = Some n" using dseg_live[OF seg a_in] by auto
  have adv: "advance i \<lparr>node = ?st\<rparr> w = Ok \<lparr>node = ?a\<rparr> w"
    using advance_ok[OF seg, of i] i by (simp add: nth_append)
  let ?w' = "w\<lparr>mem := (mem w)(?a \<mapsto> n\<lparr>data := v\<rparr>)\<rparr>"
  have w': "w' = ?w'"
    using r a0 n unfolding adv
    by (simp add: result_bind_def iterator_deref_def ref_write_def)
  have "dseg (mem ?w') 0 ?st as (xs[i := v]) 0"
    using dseg_write_data[OF seg dist i n] by simp
  then have "deque_inv ?w' d as (xs[i := v])"
    using inv by (simp add: deque_inv_def)
  moreover have "only_touched (set as) w ?w'"
    using a_in by (auto simp: only_touched_def)
  ultimately show ?thesis unfolding w' by (intro exI[of _ as] exI[of _ "xs[i := v]"]) simp
qed

lemma mutate_seq_independent:
  assumes "deque_inv w d as xs" "deque_inv w other bs ys" "other \<noteq> d" "set as \<inter> set bs = {}"
    "mutate_seq ms d w = Some (Ok u w')"
  shows "deque_inv w' other bs ys"
  using assms
proof (induction ms arbitrary: w as xs)
  case Nil
  then show ?case by simp
next
  case (Cons m ms)
  from Cons.prems(5) obtain u1 w1 where m: "mutate m d w = Some (Ok u1 w1)"
    and rest: "mutate_seq ms d w1 = Some (Ok u w')"
    by (auto simp: loop_bind_def split: option.splits result.splits)
  from mutate_ok[OF Cons.prems(1) m] obtain as' xs' where
    i: "deque_inv w1 d as' xs'" "\<forall>a \<in> set as'. a \<in> set as \<or> map_of (blocks w) a = None"
      "only_touched (set as) w w1" "\<forall>other. other \<noteq> d \<longrightarrow> deques w1 other = deques w other"
    by blast
  have o1: "deque_inv w1 other bs ys"
    by (rule deque_inv_preserved[OF Cons.prems(2) i(3)]) (use Cons.prems(3,4) i(4) in auto)
  have "\<forall>b \<in> set bs. map_of (blocks w) b \<noteq> None"
    using Cons.prems(2) by (simp add: deque_inv_def)
  then have disj: "set as' \<inter> set bs = {}" using i(2) Cons.prems(4) by blast
  show ?case by (rule Cons.IH[OF i(1) o1 Cons.prems(3) disj rest])
qed

subsection \<open>The copy operations\<close>

lemma deque_inv_set_allocator:
  "deque_inv w lhs as xs \<Longrightarrow> this \<noteq> lhs \<Longrightarrow> deque_inv (set_allocator this a w) lhs as xs"
  by (simp add: deque_inv_def set_allocator_def)

lemma copy_into:
  assumes inv: "deque_inv w lhs as xs" and neq: "this \<noteq> lhs"
    and s: "allocStrategy (allocator (deques w this)) = s" "s \<noteq> 0"
    and room: "length xs * node_cost \<le> avail w"
  shows "\<exists>w' bs. CopyList this (start (deques w lhs)) w = Some (Ok () w') \<and>
           deque_inv w' this bs xs \<and> deque_inv w' lhs as xs \<and>
           set bs \<inter> set as = {} \<and> length bs = length as \<and>
           only_touched {} w w' \<and>
           (\<forall>other. other \<noteq> this \<longrightarrow> deques w' other = deques w other) \<and>
           allocStrategy (allocator (deques w' this)) = s"
proof -
  have seg: "dseg (mem w) 0 (start (deques w lhs)) as xs 0"
    and live: "\<forall>a \<in> set as. map_of (blocks w) a \<noteq> None"
    using inv by (auto simp: deque_inv_def)
  have len: "length as = length xs" using seg by (rule dseg_length)
  from CopyList_ok[OF seg live s] room len
  obtain w' bs where c: "CopyList this (start (deques w lhs)) w = Some (Ok () w')"
    "deque_inv w' this bs xs" "length bs = length as"
    "\<forall>b \<in> set bs. map_of (blocks w) b = None"
    "only_touched {} w w'"
    "\<forall>other. other \<noteq> this \<longrightarrow> deques w' other = deques w other"
    "allocator (deques w' this) = allocator (deques w this)"
    by auto
  have disj: "set bs \<inter> set as = {}" using c(4) live by blast
  have "deque_inv w' lhs as xs"
    by (rule deque_inv_preserved[OF inv c(5)]) (use c(6) neq in auto)
  then show ?thesis using c disj s by auto
qed

lemma copy_ctor_ok:
  assumes inv: "deque_inv w lhs as xs" and neq: "this \<noteq> lhs"
    and room: "length xs * node_cost \<le> avail w"
  shows "\<exists>w' bs. copy_ctor this lhs w = Some (Ok () w') \<and>
           deque_inv w' this bs xs \<and> deque_inv w' lhs as xs \<and>
           set bs \<inter> set as = {} \<and> length bs = length as \<and>
           allocStrategy (allocator (deques w' this)) = allocStrategy (allocator (deques w lhs))"
proof -
  let ?w1 = "set_allocator this (allocator (deques w lhs)) w"
  have i1: "deque_inv ?w1 lhs as xs" by (rule deque_inv_set_allocator[OF inv neq])
  have s1: "allocStrategy (allocator (deques ?w1 this)) = allocStrategy (allocator (deques w lhs))"
    "allocStrategy (allocator (deques w lhs)) \<noteq> 0"
    using inv by (simp_all add: set_allocator_def deque_inv_def)
  have r1: "length xs * node_cost \<le> avail ?w1" using room by (simp add: set_allocator_def)
  have lhs1: "deques ?w1 lhs = deques w lhs" using neq by (simp add: set_allocator_def)
  have eq: "copy_ctor this lhs w = CopyList this (start (deques ?w1 lhs)) ?w1"
    by (simp add: copy_ctor_def Let_def CopyList_def)
  from copy_into[OF i1 neq s1 r1] show ?thesis unfolding eq by blast
qed

lemma copy_ctor_strategy_ok:
  assumes inv: "deque_inv w lhs as xs" and neq: "this \<noteq> lhs"
    and room: "length xs * node_cost \<le> avail w" and st: "strategy \<noteq> 0"
  shows "\<exists>w' bs. copy_ctor_strategy this lhs strategy w = Some (Ok () w') \<and>
           deque_inv w' this bs xs \<and> deque_inv w' lhs as xs \<and>
           set bs \<inter> set as = {} \<and> length bs = length as \<and>
           allocStrategy (allocator (deques w' this)) = strategy"
proof -
  let ?w1 = "set_allocator this \<lparr>allocStrategy = strategy\<rparr> w"
  have i1: "deque_inv ?w1 lhs as xs" by (rule deque_inv_set_allocator[OF inv neq])
  have s1: "allocStrategy (allocator (deques ?w1 this)) = strategy"
    by (simp add: set_allocator_def)
  have r1: "length xs * node_cost \<le> avail ?w1" using room by (simp add: set_allocator_def)
  have eq: "copy_ctor_strategy this lhs strategy w = CopyList this (start (deques ?w1 lhs)) ?w1"
    by (simp add: copy_ctor_strategy_def Let_def)
  from copy_into[OF i1 neq s1 st r1] show ?thesis unfolding eq by blast
qed

lemma free_then_copy:
  assumes inv: "deque_inv w lhs as xs" and neq: "this \<noteq> lhs"
    and room: "length xs * node_cost \<le> avail w"
    and dst: "deque_inv w this cs zs" and disj: "set cs \<inter> set as = {}"
    and a: "allocStrategy (a (deques w lhs)) \<noteq> 0"
  shows "\<exists>w' bs. loop_bind (FreeList (start (deques w this)) (allocator (deques w this)) w)
             (\<lambda>_ w1. let w2 = set_allocator this (a (deques w1 lhs)) w1
                      in CopyList this (start (deques w2 lhs)) w2) = Some (Ok () w') \<and>
           deque_inv w' this bs xs \<and> deque_inv w' lhs as xs \<and>
           set bs \<inter> set as = {} \<and> length bs = length as \<and>
           allocStrategy (allocator (deques w' this)) = allocStrategy (a (deques w lhs))"
proof -
  let ?d = "deques w this"
  have s: "allocStrategy (allocator ?d) \<noteq> 0" and seg: "dseg (mem w) 0 (start ?d) cs zs 0"
    and dist: "distinct cs"
    and own: "\<forall>c \<in> set cs. c \<in> set (allocEls w (allocStrategy (allocator ?d))) \<and>
                 map_of (blocks w) c \<noteq> None"
    using dst by (auto simp: deque_inv_def)
  from FreeList_ok[OF seg dist s own]
  obtain w1 where f: "FreeList (start ?d) (allocator ?d) w = Some (Ok () w1)"
    "only_touched (set cs) w w1" "deques w1 = deques w" "avail w \<le> avail w1"
    "\<forall>c \<in> set cs. mem w1 c = None \<and> map_of (blocks w1) c = None"
    by blast
  have i1: "deque_inv w1 lhs as xs"
    by (rule deque_inv_preserved[OF inv f(2)]) (use disj f(3) in auto)
  let ?w2 = "set_allocator this (a (deques w1 lhs)) w1"
  have i2: "deque_inv ?w2 lhs as xs" by (rule deque_inv_set_allocator[OF i1 neq])
  have s2: "allocStrategy (allocator (deques ?w2 this)) = allocStrategy (a (deques w lhs))"
    using f(3) by (simp add: set_allocator_def)
  have r2: "length xs * node_cost \<le> avail ?w2"
    using room f(4) by (simp add: set_allocator_def)
  from copy_into[OF i2 neq s2 a r2]
  obtain w' bs where c: "CopyList this (start (deques ?w2 lhs)) ?w2 = Some (Ok () w')"
    "deque_inv w' this bs xs" "deque_inv w' lhs as xs"
    "set bs \<inter> set as = {}" "length bs = length as" "only_touched {} ?w2 w'"
    "allocStrategy (allocator (deques w' this)) = allocStrategy (a (deques w lhs))"
    by blast
  have "loop_bind (FreeList (start ?d) (allocator ?d) w)
             (\<lambda>_ w1. let w2 = set_allocator this (a (deques w1 lhs)) w1
                      in CopyList this (start (deques w2 lhs)) w2) = Some (Ok () w')"
    using f(1) c(1) by (simp add: loop_bind_def Let_def)
  then show ?thesis using c by blast
qed


lemma copy_assign_ok:
  assumes inv: "deque_inv w lhs as xs" and neq: "this \<noteq> lhs"
    and room: "length xs * node_cost \<le> avail w"
    and dst: "deque_inv w this cs zs" and disj: "set cs \<inter> set as = {}"
  shows "\<exists>w' bs. copy_assign this lhs w = Some (Ok () w') \<and>
           deque_inv w' this bs xs \<and> deque_inv w' lhs as xs \<and>
           set bs \<inter> set as = {} \<and> length bs = length as \<and>
           allocStrategy (allocator (deques w' this)) = allocStrategy (allocator (deques w lhs))"
proof -
  have a: "allocStrategy (allocator (deques w lhs)) \<noteq> 0" using inv by (simp add: deque_inv_def)
  from free_then_copy[OF inv neq room dst disj, of allocator, OF a]
  show ?thesis unfolding copy_assign_def by blast
qed

lemma Copy_ok:
  assumes inv: "deque_inv w lhs as xs" and neq: "this \<noteq> lhs"
    and room: "length xs * node_cost \<le> avail w"
    and dst: "deque_inv w this cs zs" and disj: "set cs \<inter> set as = {}"
    and st: "strategy \<noteq> 0"
  shows "\<exists>w' bs. Copy this lhs strategy w = Some (Ok () w') \<and>
           deque_inv w' this bs xs \<and> deque_inv w' lhs as xs \<and>
           set bs \<inter> set as = {} \<and> length bs = length as \<and>
           allocStrategy (allocator (deques w' this)) = strategy"
proof -
  from free_then_copy[OF inv neq room dst disj, of "\<lambda>_. \<lparr>allocStrategy = strategy\<rparr>"] st
  show ?thesis unfolding Copy_def by simp
qed

subsection \<open>The move operations, and output\<close>

lemma move_ctor_ok:
  assumes inv: "deque_inv w rhs as xs" and neq: "this \<noteq> rhs"
  shows "deque_inv (move_ctor this rhs w) this as xs"
    "start (deques (move_ctor this rhs w) this) = start (deques w rhs)"
    "tail (deques (move_ctor this rhs w) this) = tail (deques w rhs)"
    "allocator (deques (move_ctor this rhs w) this) = allocator (deques w rhs)"
    "deques (move_ctor this rhs w) rhs = \<lparr>start = 0, tail = 0, allocator = \<lparr>allocStrategy = 0\<rparr>\<rparr>"
    "mem (move_ctor this rhs w) = mem w" "blocks (move_ctor this rhs w) = blocks w"
    "allocEls (move_ctor this rhs w) = allocEls w"
  using assms
  by (simp_all add: move_ctor_def move_allocator_def set_start_def set_tail_def set_allocator_def
      deque_inv_def Let_def)

lemma move_assign_ok:
  assumes inv: "deque_inv w rhs as xs" and neq: "this \<noteq> rhs"
    and dst: "deque_inv w this cs zs" and disj: "set cs \<inter> set as = {}"
  shows "\<exists>w'. move_assign this rhs w = Some (Ok () w') \<and>
           deque_inv w' this as xs \<and>
           start (deques w' this) = start (deques w rhs) \<and>
           tail (deques w' this) = tail (deques w rhs) \<and>
           allocator (deques w' this) = allocator (deques w rhs) \<and>
           deques w' rhs = \<lparr>start = 0, tail = 0, allocator = \<lparr>allocStrategy = 0\<rparr>\<rparr> \<and>
           (\<forall>c \<in> set cs. mem w' c = None \<and> map_of (blocks w') c = None)"
proof -
  let ?d = "deques w this"
  have s: "allocStrategy (allocator ?d) \<noteq> 0" and seg: "dseg (mem w) 0 (start ?d) cs zs 0"
    and dist: "distinct cs"
    and own: "\<forall>c \<in> set cs. c \<in> set (allocEls w (allocStrategy (allocator ?d))) \<and>
                 map_of (blocks w) c \<noteq> None"
    using dst by (auto simp: deque_inv_def)
  from FreeList_ok[OF seg dist s own]
  obtain w1 where f: "FreeList (start ?d) (allocator ?d) w = Some (Ok () w1)"
    "only_touched (set cs) w w1" "deques w1 = deques w"
    "\<forall>c \<in> set cs. mem w1 c = None \<and> map_of (blocks w1) c = None"
    by blast
  have i1: "deque_inv w1 rhs as xs"
    by (rule deque_inv_preserved[OF inv f(2)]) (use disj f(3) in auto)
  let ?w' = "set_start rhs 0 (set_tail rhs 0 (set_tail this (tail (deques w1 rhs))
               (set_start this (start (deques w1 rhs)) (move_allocator this rhs w1))))"
  have r: "move_assign this rhs w = Some (Ok () ?w')"
    using f(1) neq
    by (simp add: move_assign_def loop_bind_def Let_def move_allocator_def set_start_def
        set_tail_def set_allocator_def)
  have "deque_inv ?w' this as xs"
    using i1 neq
    by (simp add: move_allocator_def set_start_def set_tail_def set_allocator_def
        deque_inv_def Let_def)
  moreover have "deques ?w' rhs = \<lparr>start = 0, tail = 0, allocator = \<lparr>allocStrategy = 0\<rparr>\<rparr>"
    using neq
    by (simp add: move_allocator_def set_start_def set_tail_def set_allocator_def Let_def)
  moreover have "start (deques ?w' this) = start (deques w rhs)"
    "tail (deques ?w' this) = tail (deques w rhs)"
    "allocator (deques ?w' this) = allocator (deques w rhs)"
    using neq f(3)
    by (simp_all add: move_allocator_def set_start_def set_tail_def set_allocator_def Let_def)
  moreover have "\<forall>c \<in> set cs. mem ?w' c = None \<and> map_of (blocks ?w') c = None"
    using f(4)
    by (simp add: move_allocator_def set_start_def set_tail_def set_allocator_def Let_def)
  ultimately show ?thesis using r by blast
qed

lemma output_nodes_ok:
  "dseg (mem w) pr p as xs 0 \<Longrightarrow> output_nodes p acc w = Some (Ok (acc @ xs) w)"
proof (induction as arbitrary: pr p xs acc)
  case Nil
  then have "p = 0" "xs = []" by (cases xs; simp)+
  then show ?case by (subst output_nodes.simps) simp
next
  case (Cons a as)
  obtain x xs' where xs: "xs = x # xs'" using Cons.prems by (cases xs) auto
  obtain n where n: "mem w a = Some n" "data n = x" "dseg (mem w) a (next_node n) as xs' 0"
    and pa: "p = a" "a \<noteq> 0"
    using Cons.prems unfolding xs by (auto split: option.splits)
  show ?case
    by (subst output_nodes.simps) (simp add: pa n Cons.IH[OF n(3)] xs)
qed

lemma output_deque_ok: "deque_inv w d as xs \<Longrightarrow> output_deque d w = Some (Ok xs w)"
  using output_nodes_ok[of w 0 "start (deques w d)" as xs "[]"]
  by (simp add: output_deque_def deque_inv_def)

lemma output_deque_null: "start (deques w d) = 0 \<Longrightarrow> output_deque d w = Some (Ok [] w)"
  unfolding output_deque_def by (subst output_nodes.simps) simp

subsection \<open>Runs of pushes and pops refine the plain sequence\<close>

lemma run_ops_refines:
  assumes "deque_inv w d as xs" "spec_ops ops xs out = Some (out', xs')"
    "pushes ops * node_cost \<le> avail w"
  shows "\<exists>w' as'. run_ops ops d out w = Ok out' w' \<and> deque_inv w' d as' xs' \<and>
           avail w - pushes ops * node_cost \<le> avail w'"
  using assms
proof (induction ops xs out arbitrary: w as rule: spec_ops.induct)
  case (1 xs out)
  then show ?case by auto
next
  case (2 x ops xs out)
  have room: "node_cost \<le> avail w" using "2.prems"(3) by simp
  from PushBack_ok[OF "2.prems"(1) room, of x]
  obtain w1 where p: "PushBack d x w = Ok () w1"
    "deque_inv w1 d (as @ [next_block w]) (xs @ [x])" "avail w1 = avail w - node_cost"
    by blast
  have "pushes ops * node_cost \<le> avail w1" using "2.prems"(3) p(3) by simp
  from "2.IH"[OF p(2) _ this] "2.prems"(2)
  obtain w' as' where "run_ops ops d out w1 = Ok out' w'" "deque_inv w' d as' xs'"
    "avail w1 - pushes ops * node_cost \<le> avail w'" by auto
  then show ?case using p(3) by (auto simp: p(1) result_bind_def)
next
  case (3 x ops xs out)
  have room: "node_cost \<le> avail w" using "3.prems"(3) by simp
  from PushFront_ok[OF "3.prems"(1) room, of x]
  obtain w1 where p: "PushFront d x w = Ok () w1"
    "deque_inv w1 d (next_block w # as) (x # xs)" "avail w1 = avail w - node_cost"
    by blast
  have "pushes ops * node_cost \<le> avail w1" using "3.prems"(3) p(3) by simp
  from "3.IH"[OF p(2) _ this] "3.prems"(2)
  obtain w' as' where "run_ops ops d out w1 = Ok out' w'" "deque_inv w' d as' xs'"
    "avail w1 - pushes ops * node_cost \<le> avail w'" by auto
  then show ?case using p(3) by (auto simp: p(1) result_bind_def)
next
  case (4 ops xs out)
  then have ne: "xs \<noteq> []" by (auto split: if_splits)
  then have ane: "as \<noteq> []" using "4.prems"(1) dseg_length unfolding deque_inv_def by fastforce
  from PopBack_ok[OF "4.prems"(1) ane]
  obtain w1 where p: "PopBack d w = Ok (last xs) w1"
    "deque_inv w1 d (butlast as) (butlast xs)" "avail w \<le> avail w1"
    by blast
  have "pushes ops * node_cost \<le> avail w1" using "4.prems"(3) p(3) by simp
  from "4.IH"[OF ne p(2) _ this] "4.prems"(2) ne
  obtain w' as' where "run_ops ops d (out @ [last xs]) w1 = Ok out' w'" "deque_inv w' d as' xs'"
    "avail w1 - pushes ops * node_cost \<le> avail w'" by auto
  then show ?case using p(3) by (auto simp: p(1) result_bind_def)
next
  case (5 ops xs out)
  then have ne: "xs \<noteq> []" by (auto split: if_splits)
  then have ane: "as \<noteq> []" using "5.prems"(1) dseg_length unfolding deque_inv_def by fastforce
  from PopFront_ok[OF "5.prems"(1) ane]
  obtain w1 where p: "PopFront d w = Ok (hd xs) w1"
    "deque_inv w1 d (tl as) (tl xs)" "avail w \<le> avail w1"
    by blast
  have "pushes ops * node_cost \<le> avail w1" using "5.prems"(3) p(3) by simp
  from "5.IH"[OF ne p(2) _ this] "5.prems"(2) ne
  obtain w' as' where "run_ops ops d (out @ [hd xs]) w1 = Ok out' w'" "deque_inv w' d as' xs'"
    "avail w1 - pushes ops * node_cost \<le> avail w'" by auto
  then show ?case using p(3) by (auto simp: p(1) result_bind_def)
qed

lemma run_ops_empty_pop:
  assumes "deque_inv w d as xs" "spec_ops ops xs out = None"
    "pushes ops * node_cost \<le> avail w"
  shows "\<exists>w' as' xs'. run_ops ops d out w = Thrown ''Empty list'' w' \<and> deque_inv w' d as' xs'"
  using assms
proof (induction ops xs out arbitrary: w as rule: spec_ops.induct)
  case (1 xs out)
  then show ?case by simp
next
  case (2 x ops xs out)
  have room: "node_cost \<le> avail w" using "2.prems"(3) by simp
  from PushBack_ok[OF "2.prems"(1) room, of x]
  obtain w1 where p: "PushBack d x w = Ok () w1"
    "deque_inv w1 d (as @ [next_block w]) (xs @ [x])" "avail w1 = avail w - node_cost"
    by blast
  have "pushes ops * node_cost \<le> avail w1" using "2.prems"(3) p(3) by simp
  from "2.IH"[OF p(2) _ this] "2.prems"(2)
  show ?case by (simp add: p(1) result_bind_def)
next
  case (3 x ops xs out)
  have room: "node_cost \<le> avail w" using "3.prems"(3) by simp
  from PushFront_ok[OF "3.prems"(1) room, of x]
  obtain w1 where p: "PushFront d x w = Ok () w1"
    "deque_inv w1 d (next_block w # as) (x # xs)" "avail w1 = avail w - node_cost"
    by blast
  have "pushes ops * node_cost \<le> avail w1" using "3.prems"(3) p(3) by simp
  from "3.IH"[OF p(2) _ this] "3.prems"(2)
  show ?case by (simp add: p(1) result_bind_def)
next
  case (4 ops xs out)
  show ?case
  proof (cases "xs = []")
    case True
    then have "as = []" using "4.prems"(1) dseg_length unfolding deque_inv_def by fastforce
    then have "tail (deques w d) = 0" using "4.prems"(1) by (simp add: deque_inv_def)
    then have "run_ops (OpPopBack # ops) d out w = Thrown ''Empty list'' w"
      by (simp add: PopBack_def result_bind_def)
    then show ?thesis using "4.prems"(1) by blast
  next
    case ne: False
    then have ane: "as \<noteq> []" using "4.prems"(1) dseg_length unfolding deque_inv_def by fastforce
    from PopBack_ok[OF "4.prems"(1) ane]
    obtain w1 where p: "PopBack d w = Ok (last xs) w1"
      "deque_inv w1 d (butlast as) (butlast xs)" "avail w \<le> avail w1"
      by blast
    have "pushes ops * node_cost \<le> avail w1" using "4.prems"(3) p(3) by simp
    from "4.IH"[OF ne p(2) _ this] "4.prems"(2) ne
    show ?thesis by (simp add: p(1) result_bind_def)
  qed
next
  case (5 ops xs out)
  show ?case
  proof (cases "xs = []")
    case True
    then have "as = []" using "5.prems"(1) dseg_length unfolding deque_inv_def by fastforce
    then have "start (deques w d) = 0" using "5.prems"(1) deque_inv_empty by metis
    then have "run_ops (OpPopFront # ops) d out w = Thrown ''Empty list'' w"
      by (simp add: PopFront_def result_bind_def)
    then show ?thesis using "5.prems"(1) by blast
  next
    case ne: False
    then have ane: "as \<noteq> []" using "5.prems"(1) dseg_length unfolding deque_inv_def by fastforce
    from PopFront_ok[OF "5.prems"(1) ane]
    obtain w1 where p: "PopFront d w = Ok (hd xs) w1"
      "deque_inv w1 d (tl as) (tl xs)" "avail w \<le> avail w1"
      by blast
    have "pushes ops * node_cost \<le> avail w1" using "5.prems"(3) p(3) by simp
    from "5.IH"[OF ne p(2) _ this] "5.prems"(2) ne
    show ?thesis by (simp add: p(1) result_bind_def)
  qed
qed

lemma spec_ops_push_back: "spec_ops (map OpPushBack vs @ ops) xs out = spec_ops ops (xs @ vs) out"
  by (induction vs arbitrary: xs) auto

lemma spec_ops_pop_front:
  "spec_ops (replicate (length xs) OpPopFront) xs out = Some (out @ xs, [])"
  by (induction xs arbitrary: out) auto

lemma spec_ops_pop_back:
  "spec_ops (replicate (length xs) OpPopBack) xs out = Some (out @ rev xs, [])"
proof (induction xs arbitrary: out rule: rev_induct)
  case Nil
  then show ?case by simp
next
  case (snoc x xs)
  then show ?case by simp
qed

lemma pushes_append: "pushes (ops @ ops') = pushes ops + pushes ops'"
  by (induction ops rule: pushes.induct) auto

lemma pushes_map_push: "pushes (map OpPushBack vs) = length vs"
  by (induction vs) auto

lemma pushes_replicate_pop:
  "pushes (replicate n OpPopFront) = 0" "pushes (replicate n OpPopBack) = 0"
  by (induction n) auto


lemma deque_inv_no_values: "deque_inv w d as [] \<Longrightarrow> IsEmpty d w"
proof -
  assume a: "deque_inv w d as []"
  then have "length as = length ([]::'a list)" using dseg_length unfolding deque_inv_def by blast
  then show ?thesis using a deque_inv_empty[of w d "[]"] by (simp add: IsEmpty_def)
qed

subsection \<open>Traversal\<close>

lemma iterate_ok:
  "dseg (mem w) pr p as xs 0 \<Longrightarrow> iterate d \<lparr>node = p\<rparr> acc w = Some (Ok (acc @ xs) w)"
proof (induction as arbitrary: pr p xs acc)
  case Nil
  then have "p = 0" "xs = []" by (cases xs; simp)+
  then show ?case
    by (subst iterate.simps) (simp add: iterator_neq_def deque_end_def)
next
  case (Cons a as)
  obtain x xs' where xs: "xs = x # xs'" using Cons.prems by (cases xs) auto
  obtain n where n: "mem w a = Some n" "data n = x" "dseg (mem w) a (next_node n) as xs' 0"
    and pa: "p = a" "a \<noteq> 0"
    using Cons.prems unfolding xs by (auto split: option.splits)
  show ?case
    by (subst iterate.simps)
      (simp add: iterator_neq_def deque_end_def iterator_deref_def ref_read_def
        iterator_pre_incr_def pa n Cons.IH[OF n(3)] xs)
qed

subsection \<open>Copy construction from a freed node\<close>

lemma alloc_reads_dead:
  assumes "allocStrategy a \<noteq> 0" "node_cost \<le> avail w" "get_node w p = None"
  shows "single_allocator_alloc a (node_copy_ctor p) w = Fault InvalidAccess"
  using assms next_block_fresh(2)[of w]
  by (auto simp: single_allocator_alloc_def stupid_strategy_alloc_def malloc_def Let_def
      list_push_back_def result_bind_def node_cost_def
      node_copy_ctor_def get_node_def next_block_def split: if_splits)

lemma alloc_dead_fails:
  assumes "allocStrategy a \<noteq> 0" "get_node w p = None"
  shows "single_allocator_alloc a (node_copy_ctor p) w = Fault InvalidAccess \<or>
         (\<exists>w'. single_allocator_alloc a (node_copy_ctor p) w = Thrown ''std::bad_alloc'' w')"
proof (cases "node_cost \<le> avail w")
  case True
  then show ?thesis using alloc_reads_dead[OF assms(1) True assms(2)] by blast
next
  case False
  then show ?thesis using alloc_bad_alloc[OF assms(1) False] by blast
qed

subsection \<open>ChangeAllocator\<close>

text \<open>
  On a well-formed non-empty deque \<^verbatim>\<open>ChangeAllocator\<close> is: set the allocator, run
  \<^verbatim>\<open>CopyList\<close> on the deque's own list, then \<^verbatim>\<open>FreeList\<close> under the old allocator
  on the list that \<^verbatim>\<open>start\<close> now heads, which is the new one. Under another strategy
  that \<^verbatim>\<open>FreeList\<close> changes nothing and the old nodes stay allocated; under the same
  strategy it frees the new nodes.
\<close>

lemma map_of_snoc_fresh: "map_of bl p = None \<Longrightarrow> map_of (bl @ [(p, n)]) p = Some n"
  by (induction bl) auto

lemma FreeList_untracked:
  assumes "dseg (mem w) pr p bs xs 0" "allocStrategy al \<noteq> 0"
    "\<forall>b \<in> set bs. b \<notin> set (allocEls w (allocStrategy al))"
  shows "FreeList p al w = Some (Ok () w)"
  using assms
proof (induction bs arbitrary: pr p xs)
  case Nil
  then have "p = 0" by (cases xs) auto
  then show ?case by (subst FreeList.simps) simp
next
  case (Cons b bs)
  obtain y ys where xs: "xs = y # ys" using Cons.prems(1) by (cases xs) auto
  obtain n where n: "mem w b = Some n" "dseg (mem w) b (next_node n) bs ys 0"
    and pb: "p = b" "b \<noteq> 0"
    using Cons.prems(1) unfolding xs by (auto split: option.splits)
  have de: "single_allocator_dealloc al b w = Ok () w"
    using Cons.prems(2,3)
    by (simp add: single_allocator_dealloc_def stupid_strategy_dealloc_def)
  have "FreeList (next_node n) al w = Some (Ok () w)"
    using Cons.IH[OF n(2) Cons.prems(2)] Cons.prems(3) by simp
  then show ?case by (subst FreeList.simps) (simp add: pb n de)
qed

lemma ChangeAllocator_eq:
  assumes "mem w (start (deques w this)) \<noteq> None" "map_of (blocks w) (start (deques w this)) \<noteq> None"
  shows "ChangeAllocator this strategy w =
           loop_bind (CopyList this (start (deques w this))
                        (set_allocator this \<lparr>allocStrategy = strategy\<rparr> w))
             (\<lambda>_ w4. FreeList (start (deques w4 this)) (allocator (deques w this)) w4)"
proof -
  let ?st = "start (deques w this)"
  let ?w1 = "set_allocator this \<lparr>allocStrategy = strategy\<rparr> w"
  obtain n where n: "mem w ?st = Some n" using assms(1) by auto
  have w1: "start (deques ?w1 this) = ?st" "allocator (deques ?w1 this) = \<lparr>allocStrategy = strategy\<rparr>"
    "mem ?w1 = mem w" "blocks ?w1 = blocks w" "avail ?w1 = avail w"
    by (simp_all add: set_allocator_def)
  show ?thesis
  proof (cases "?st = 0")
    case True
    then show ?thesis
      by (simp add: ChangeAllocator_def CopyList_def Let_def w1 loop_bind_def
          set_tail_def set_start_def set_allocator_def FreeList.simps[of 0])
  next
    case st0: False
    show ?thesis
    proof (cases "strategy = 0")
      case True
      then have "single_allocator_alloc \<lparr>allocStrategy = strategy\<rparr> (node_copy_ctor ?st) ?w1
                    = Fault NullStrategy"
        by (simp add: single_allocator_alloc_def)
      then show ?thesis using st0
        by (simp add: ChangeAllocator_def CopyList_def Let_def w1 loop_bind_def)
    next
      case s0: False
      show ?thesis
      proof (cases "node_cost \<le> avail w")
        case False
        then obtain w2 where
          "single_allocator_alloc \<lparr>allocStrategy = strategy\<rparr> (node_copy_ctor ?st) ?w1
             = Thrown ''std::bad_alloc'' w2"
          using alloc_bad_alloc[of "\<lparr>allocStrategy = strategy\<rparr>" ?w1 "node_copy_ctor ?st"] s0 w1(5)
          by auto
        then show ?thesis using st0
          by (simp add: ChangeAllocator_def CopyList_def Let_def w1 loop_bind_def)
      next
        case True
        let ?p = "next_block ?w1"
        let ?w2 = "node_allocated strategy ?p n ?w1"
        have al: "single_allocator_alloc \<lparr>allocStrategy = strategy\<rparr> (node_copy_ctor ?st) ?w1
                    = Ok ?p ?w2"
          using alloc_ok[of "\<lparr>allocStrategy = strategy\<rparr>" ?w1 "node_copy_ctor ?st" n]
            s0 True w1 n st0
          by (simp add: node_copy_ctor_def)
        have fresh: "map_of (blocks ?w1) ?p = None" "?p \<noteq> 0" by (rule next_block_fresh)+
        then have neq: "?st \<noteq> ?p" using assms(2) w1(4) by metis
        have g1: "get_node (set_start this ?p ?w2) ?st = Some n"
          using st0 neq n by (simp add: set_start_def node_allocated_def set_allocator_def)
        have g2: "get_node (set_start this ?p ?w2) ?p = Some n"
          using fresh(2) by (simp add: set_start_def node_allocated_def)
        have s2: "start (deques (set_start this ?p ?w2) this) = ?p"
          by (simp add: set_start_def)
        show ?thesis
          using st0 al g1 g2 s2
          by (simp add: ChangeAllocator_def CopyList_def Let_def w1)
      qed
    qed
  qed
qed

lemma ChangeAllocator_copies:
  assumes inv: "deque_inv w d as xs" and ne: "as \<noteq> []" and s2: "s2 \<noteq> 0"
    and room: "length xs * node_cost \<le> avail w"
  shows "\<exists>w4 bs. ChangeAllocator d s2 w =
             FreeList (start (deques w4 d)) (allocator (deques w d)) w4 \<and>
           deque_inv w4 d bs xs \<and> length bs = length as \<and>
           allocStrategy (allocator (deques w4 d)) = s2 \<and>
           (\<forall>b \<in> set bs. map_of (blocks w) b = None) \<and>
           (\<forall>a \<in> set as. mem w4 a = mem w a \<and> map_of (blocks w4) a \<noteq> None \<and>
              (\<forall>s. a \<in> set (allocEls w s) \<longrightarrow> a \<in> set (allocEls w4 s))) \<and>
           (\<forall>t. t \<noteq> s2 \<longrightarrow> allocEls w4 t = allocEls w t)"
proof -
  let ?st = "start (deques w d)"
  let ?w1 = "set_allocator d \<lparr>allocStrategy = s2\<rparr> w"
  have seg: "dseg (mem w) 0 ?st as xs 0"
    and live: "\<forall>a \<in> set as. map_of (blocks w) a \<noteq> None"
    using inv by (auto simp: deque_inv_def)
  have st: "?st = hd as" using deque_inv_ends(1)[OF inv ne] .
  have hd_in: "hd as \<in> set as" using ne by simp
  have r1: "mem w ?st \<noteq> None" using dseg_live[OF seg hd_in] st by simp
  have r2: "map_of (blocks w) ?st \<noteq> None" using live hd_in st by simp
  note eq = ChangeAllocator_eq[OF r1 r2, of s2]
  have seg1: "dseg (mem ?w1) 0 ?st as xs 0" using seg by (simp add: set_allocator_def)
  have live1: "\<forall>a \<in> set as. map_of (blocks ?w1) a \<noteq> None"
    using live by (simp add: set_allocator_def)
  have s1: "allocStrategy (allocator (deques ?w1 d)) = s2" by (simp add: set_allocator_def)
  have len: "length as = length xs" using seg by (rule dseg_length)
  have room1: "length as * node_cost \<le> avail ?w1"
    using room len by (simp add: set_allocator_def)
  from CopyList_ok[OF seg1 live1 s1 s2 room1]
  obtain w4 bs where c: "CopyList d ?st ?w1 = Some (Ok () w4)"
    "deque_inv w4 d bs xs" "length bs = length as"
    "\<forall>b \<in> set bs. map_of (blocks ?w1) b = None"
    "only_touched {} ?w1 w4"
    "allocator (deques w4 d) = allocator (deques ?w1 d)"
    "\<forall>t. t \<noteq> s2 \<longrightarrow> allocEls w4 t = allocEls ?w1 t"
    by blast
  have e: "ChangeAllocator d s2 w = FreeList (start (deques w4 d)) (allocator (deques w d)) w4"
    unfolding eq c(1) by (simp add: loop_bind_def)
  have old: "\<forall>a \<in> set as. mem w4 a = mem w a \<and> map_of (blocks w4) a \<noteq> None \<and>
              (\<forall>s. a \<in> set (allocEls w s) \<longrightarrow> a \<in> set (allocEls w4 s))"
  proof
    fix a assume "a \<in> set as"
    then have "a \<notin> {} \<and> map_of (blocks ?w1) a \<noteq> None" using live1 by simp
    then have "mem w4 a = mem ?w1 a \<and> map_of (blocks w4) a \<noteq> None \<and>
        (\<forall>s. a \<in> set (allocEls ?w1 s) \<longrightarrow> a \<in> set (allocEls w4 s))"
      using c(5) unfolding only_touched_def by blast
    then show "mem w4 a = mem w a \<and> map_of (blocks w4) a \<noteq> None \<and>
              (\<forall>s. a \<in> set (allocEls w s) \<longrightarrow> a \<in> set (allocEls w4 s))"
      by (simp add: set_allocator_def)
  qed
  have "\<forall>b \<in> set bs. map_of (blocks w) b = None" using c(4) by (simp add: set_allocator_def)
  moreover have "\<forall>t. t \<noteq> s2 \<longrightarrow> allocEls w4 t = allocEls w t"
    using c(7) by (simp add: set_allocator_def)
  moreover have "allocStrategy (allocator (deques w4 d)) = s2" using c(6) s1 by simp
  ultimately show ?thesis using e c(2,3) old by blast
qed

lemma ChangeAllocator_other_strategy:
  assumes inv: "deque_inv w d as xs" and ne: "as \<noteq> []" and s2: "s2 \<noteq> 0"
    and other: "s2 \<noteq> allocStrategy (allocator (deques w d))"
    and room: "length xs * node_cost \<le> avail w"
    and tracked: "\<forall>a \<in> set (allocEls w (allocStrategy (allocator (deques w d)))).
                    a = 0 \<or> map_of (blocks w) a \<noteq> None"
  shows "\<exists>w' bs. ChangeAllocator d s2 w = Some (Ok () w') \<and>
           deque_inv w' d bs xs \<and> set bs \<inter> set as = {} \<and>
           allocStrategy (allocator (deques w' d)) = s2 \<and>
           allocEls w' (allocStrategy (allocator (deques w d))) =
             allocEls w (allocStrategy (allocator (deques w d))) \<and>
           (\<forall>a \<in> set as. mem w' a = mem w a \<and> map_of (blocks w') a \<noteq> None \<and>
              a \<in> set (allocEls w' (allocStrategy (allocator (deques w d)))))"
proof -
  let ?s1 = "allocStrategy (allocator (deques w d))"
  from ChangeAllocator_copies[OF inv ne s2 room]
  obtain w4 bs where c:
    "ChangeAllocator d s2 w = FreeList (start (deques w4 d)) (allocator (deques w d)) w4"
    "deque_inv w4 d bs xs" "\<forall>b \<in> set bs. map_of (blocks w) b = None"
    "\<forall>a \<in> set as. mem w4 a = mem w a \<and> map_of (blocks w4) a \<noteq> None \<and>
              (\<forall>s. a \<in> set (allocEls w s) \<longrightarrow> a \<in> set (allocEls w4 s))"
    "\<forall>t. t \<noteq> s2 \<longrightarrow> allocEls w4 t = allocEls w t"
    "allocStrategy (allocator (deques w4 d)) = s2"
    by blast
  have s1: "?s1 \<noteq> 0" and own: "\<forall>a \<in> set as. a \<in> set (allocEls w ?s1) \<and> map_of (blocks w) a \<noteq> None"
    using inv by (auto simp: deque_inv_def)
  have seg4: "dseg (mem w4) 0 (start (deques w4 d)) bs xs 0"
    using c(2) by (simp add: deque_inv_def)
  have keep: "allocEls w4 ?s1 = allocEls w ?s1" using c(5) other by metis
  have untr: "\<forall>b \<in> set bs. b \<notin> set (allocEls w4 ?s1)"
  proof
    fix b assume b: "b \<in> set bs"
    then have "map_of (blocks w) b = None" "b \<noteq> 0"
      using c(3) dseg_nonzero[OF seg4] by metis+
    then show "b \<notin> set (allocEls w4 ?s1)" using tracked keep by metis
  qed
  have "FreeList (start (deques w4 d)) (allocator (deques w d)) w4 = Some (Ok () w4)"
    by (rule FreeList_untracked[OF seg4 s1 untr])
  then have r: "ChangeAllocator d s2 w = Some (Ok () w4)" using c(1) by simp
  have "set bs \<inter> set as = {}" using c(3) own by blast
  moreover have "\<forall>a \<in> set as. mem w4 a = mem w a \<and> map_of (blocks w4) a \<noteq> None \<and>
              a \<in> set (allocEls w4 ?s1)"
    using c(4) own by blast
  ultimately show ?thesis using r c(2,6) keep by blast
qed

lemma ChangeAllocator_same_strategy:
  assumes inv: "deque_inv w d as xs" and ne: "as \<noteq> []"
    and room: "length xs * node_cost \<le> avail w"
  shows "\<exists>w' bs. ChangeAllocator d (allocStrategy (allocator (deques w d))) w = Some (Ok () w') \<and>
           start (deques w' d) = hd bs \<and> tail (deques w' d) = last bs \<and>
           distinct bs \<and> length bs = length as \<and> 0 \<notin> set bs \<and>
           (\<forall>b \<in> set bs. mem w' b = None \<and> map_of (blocks w') b = None) \<and>
           (\<forall>a \<in> set as. map_of (blocks w') a \<noteq> None \<and>
              a \<in> set (allocEls w' (allocStrategy (allocator (deques w d)))))"
proof -
  let ?s1 = "allocStrategy (allocator (deques w d))"
  have s1: "?s1 \<noteq> 0" and own: "\<forall>a \<in> set as. a \<in> set (allocEls w ?s1) \<and> map_of (blocks w) a \<noteq> None"
    using inv by (auto simp: deque_inv_def)
  from ChangeAllocator_copies[OF inv ne s1 room]
  obtain w4 bs where c:
    "ChangeAllocator d ?s1 w = FreeList (start (deques w4 d)) (allocator (deques w d)) w4"
    "deque_inv w4 d bs xs" "length bs = length as"
    "\<forall>b \<in> set bs. map_of (blocks w) b = None"
    "\<forall>a \<in> set as. mem w4 a = mem w a \<and> map_of (blocks w4) a \<noteq> None \<and>
              (\<forall>s. a \<in> set (allocEls w s) \<longrightarrow> a \<in> set (allocEls w4 s))"
    "allocStrategy (allocator (deques w4 d)) = ?s1"
    by blast
  have bne: "bs \<noteq> []" using c(3) ne by auto
  have seg4: "dseg (mem w4) 0 (start (deques w4 d)) bs xs 0" and dist: "distinct bs"
    and own4: "\<forall>b \<in> set bs. b \<in> set (allocEls w4 ?s1) \<and> map_of (blocks w4) b \<noteq> None"
    using c(2,6) by (auto simp: deque_inv_def)
  from FreeList_ok[OF seg4 dist s1 own4]
  obtain w5 where f: "FreeList (start (deques w4 d)) (allocator (deques w d)) w4 = Some (Ok () w5)"
    "only_touched (set bs) w4 w5" "deques w5 = deques w4"
    "\<forall>b \<in> set bs. mem w5 b = None \<and> map_of (blocks w5) b = None"
    by blast
  have r: "ChangeAllocator d ?s1 w = Some (Ok () w5)" using c(1) f(1) by simp
  have ends: "start (deques w5 d) = hd bs" "tail (deques w5 d) = last bs"
    using deque_inv_ends(1,2)[OF c(2) bne] f(3) by simp_all
  have disj: "set bs \<inter> set as = {}" using c(4) own by blast
  have old: "\<forall>a \<in> set as. map_of (blocks w5) a \<noteq> None \<and> a \<in> set (allocEls w5 ?s1)"
  proof
    fix a assume a: "a \<in> set as"
    then have "a \<notin> set bs" "map_of (blocks w4) a \<noteq> None" "a \<in> set (allocEls w4 ?s1)"
      using disj c(5) own by blast+
    then show "map_of (blocks w5) a \<noteq> None \<and> a \<in> set (allocEls w5 ?s1)"
      using f(2) unfolding only_touched_def by blast
  qed
  show ?thesis using r ends dist c(3) dseg_nonzero[OF seg4] f(4) old by blast
qed

lemma dangling_not_linked:
  assumes "start (deques w d) \<noteq> 0" "get_node w (start (deques w d)) = None"
    "start (deques w d) \<noteq> tail (deques w d)"
  shows "\<not> linked w d"
proof
  assume "linked w d"
  then obtain k where k: "steps next_node w k (start (deques w d)) = Some (tail (deques w d))"
    using assms(1) by (auto simp: linked_def)
  show False using k assms(2,3) by (cases k) auto
qed

subsection \<open>The invariant of the data model holds for well-formed deques\<close>

lemma steps_next_dseg:
  "dseg (mem w) pr p (as @ [a]) xs q \<Longrightarrow> steps next_node w (length as) p = Some a"
proof (induction as arbitrary: pr p xs)
  case Nil
  then show ?case by (cases xs) auto
next
  case (Cons b bs)
  obtain y ys where xs: "xs = y # ys" using Cons.prems by (cases xs) auto
  obtain n where n: "mem w b = Some n" "dseg (mem w) b (next_node n) (bs @ [a]) ys q"
    and pb: "p = b" "b \<noteq> 0"
    using Cons.prems unfolding xs by (auto split: option.splits)
  show ?case using Cons.IH[OF n(2)] pb n(1) by simp
qed

lemma steps_prev_dseg:
  "dseg (mem w) pr p (a # as) xs q \<Longrightarrow> steps prev_node w (length as) (last (a # as)) = Some a"
proof (induction as arbitrary: xs q rule: rev_induct)
  case Nil
  then show ?case by simp
next
  case (snoc b bs)
  have len: "length (a # bs @ [b]) = length xs" using snoc.prems by (rule dseg_length)
  then obtain ys y where xs: "xs = ys @ [y]" by (cases xs rule: rev_cases) auto
  have len': "length (a # bs) = length ys" using len xs by simp
  have "dseg (mem w) pr p ((a # bs) @ [b]) (ys @ [y]) q" using snoc.prems xs by simp
  then obtain n where n: "dseg (mem w) pr p (a # bs) ys b" "b \<noteq> 0" "mem w b = Some n"
    "prev_node n = last (a # bs)"
    unfolding dseg_snoc[OF len'] by (auto split: option.splits)
  show ?case using snoc.IH[OF n(1)] n(2,3,4) by simp
qed

lemma deque_inv_linked: "deque_inv w d as xs \<Longrightarrow> linked w d"
proof (cases as)
  case Nil
  assume "deque_inv w d as xs"
  then show ?thesis using Nil deque_inv_empty[of w d xs] by (simp add: linked_def)
next
  case (Cons a as')
  assume inv: "deque_inv w d as xs"
  have seg: "dseg (mem w) 0 (start (deques w d)) as xs 0" using inv by (simp add: deque_inv_def)
  have ne: "as \<noteq> []" using Cons by simp
  have ends: "start (deques w d) = a" "tail (deques w d) = last as"
    using deque_inv_ends(1,2)[OF inv ne] Cons by simp_all
  have "a \<in> set as" "last as \<in> set as" using Cons by simp_all
  then have nz: "a \<noteq> 0" "last as \<noteq> 0" using dseg_nonzero[OF seg] by metis+
  obtain bs b where snoc: "as = bs @ [b]" using ne by (cases as rule: rev_cases) auto
  have l: "length bs = length as'" using snoc Cons by (metis length_Cons length_append_singleton nat.inject)
  have "steps next_node w (length bs) (start (deques w d)) = Some b"
    using steps_next_dseg[of w 0 _ bs b xs 0] seg snoc by simp
  moreover have "steps prev_node w (length as') (last as) = Some a"
    using steps_prev_dseg[of w 0 _ a as' xs 0] seg Cons by simp
  ultimately show ?thesis using ends nz l snoc unfolding linked_def by auto
qed

lemma distinct_hd_last: "distinct bs \<Longrightarrow> 2 \<le> length bs \<Longrightarrow> hd bs \<noteq> last bs"
  by (cases bs) (auto simp: Suc_le_eq)

lemma world_1234_tracked:
  "allocStrategy (allocator (deques world_1234 1)) = 1"
  "allocEls world_1234 1 = [1, 2, 3, 4]"
  "\<forall>a \<in> set (allocEls world_1234 (allocStrategy (allocator (deques world_1234 1)))).
      a = 0 \<or> map_of (blocks world_1234) a \<noteq> None"
  by (simp_all add: world_1234_def)

subsection \<open>The example state is a state of the program\<close>

lemma fresh_addr_values:
  "fresh_addr [] = 1" "fresh_addr [Suc 0] = 2" "fresh_addr [Suc 0, 2] = 3"
  "fresh_addr [Suc 0, 2, 3] = 4"
  by (simp_all add: fresh_addr_def upt_rec)

lemma world_eqI:
  assumes "blocks w = blocks w'" "avail w = avail w'" "\<forall>s. allocEls w s = allocEls w' s"
    "\<forall>a. mem w a = mem w' a" "\<forall>i. deques w i = deques w' i"
  shows "(w::'a world) = w'"
  by (rule world.equality) (use assms in auto)

lemmas eval_defs = result_bind_def PushBack_def PushFront_def deque_ctor_def
      initial_world_def single_allocator_alloc_def stupid_strategy_alloc_def list_push_back_def malloc_def
      fresh_addr_values node_ctor_def set_tail_def set_start_def set_next_def set_prev_def
      get_node_def Let_def sizeof_node_t_def sizeof_list_node_def

lemma world_1234_built:
  "run_ops [OpPushBack 3, OpPushBack 4, OpPushFront 2, OpPushFront 1] 1 []
     (deque_ctor 2 2 (deque_ctor 1 1 (initial_world 1000))) = Ok [] world_1234"
proof -
  let ?e = "\<lambda>_. \<lparr>start = 0, tail = 0, allocator = \<lparr>allocStrategy = 0\<rparr>\<rparr>"
  let ?d2 = "\<lparr>start = 0, tail = 0, allocator = \<lparr>allocStrategy = 2\<rparr>\<rparr>"
  let ?w0 = "deque_ctor 2 2 (deque_ctor 1 1 (initial_world 1000)) :: int world"
  let ?w1 = "\<lparr>blocks = [(1, 24)], avail = 952, allocEls = (\<lambda>_. [])(1 := [1]),
      mem = [1 \<mapsto> \<lparr>next_node = 0, prev_node = 0, data = 3\<rparr>],
      deques = ?e(1 := \<lparr>start = 1, tail = 1, allocator = \<lparr>allocStrategy = 1\<rparr>\<rparr>, 2 := ?d2)\<rparr> :: int world"
  let ?w2 = "\<lparr>blocks = [(1, 24), (2, 24)], avail = 904, allocEls = (\<lambda>_. [])(1 := [1, 2]),
      mem = [1 \<mapsto> \<lparr>next_node = 2, prev_node = 0, data = 3\<rparr>,
             2 \<mapsto> \<lparr>next_node = 0, prev_node = 1, data = 4\<rparr>],
      deques = ?e(1 := \<lparr>start = 1, tail = 2, allocator = \<lparr>allocStrategy = 1\<rparr>\<rparr>, 2 := ?d2)\<rparr> :: int world"
  let ?w3 = "\<lparr>blocks = [(1, 24), (2, 24), (3, 24)], avail = 856, allocEls = (\<lambda>_. [])(1 := [1, 2, 3]),
      mem = [1 \<mapsto> \<lparr>next_node = 2, prev_node = 3, data = 3\<rparr>,
             2 \<mapsto> \<lparr>next_node = 0, prev_node = 1, data = 4\<rparr>,
             3 \<mapsto> \<lparr>next_node = 1, prev_node = 0, data = 2\<rparr>],
      deques = ?e(1 := \<lparr>start = 3, tail = 2, allocator = \<lparr>allocStrategy = 1\<rparr>\<rparr>, 2 := ?d2)\<rparr> :: int world"
  have s1: "PushBack 1 3 ?w0 = Ok () ?w1"
    by (auto simp: eval_defs fun_eq_iff)
  have s2: "PushBack 1 4 ?w1 = Ok () ?w2"
    by (auto simp: eval_defs fun_eq_iff)
  have s3: "PushFront 1 2 ?w2 = Ok () ?w3"
    by (auto simp: eval_defs fun_eq_iff)
  have s4: "PushFront 1 1 ?w3 = Ok () world_1234"
    by (auto simp: eval_defs world_1234_def fun_eq_iff)
  show ?thesis by (simp only: run_ops.simps result_bind_def s1 s2 s3 s4 result.case)
qed

section \<open>ChangeAllocator\<close>

text \<open>
  Claim C1, at the deque of \<^verbatim>\<open>main.cpp\<close> with values \<open>[1,2,3,4]\<close> under strategy 1,
  migrated to strategy 2. \<^verbatim>\<open>ChangeAllocator\<close> returns and the deque prints the same
  values from new nodes under strategy 2, but the old node sequence is not freed: the
  tracking list of strategy 1 still holds the four old blocks, all of them still live.
  \<^verbatim>\<open>FreeList\<close> was handed \<^verbatim>\<open>start\<close>, which by then heads the new list, whose nodes
  the old strategy does not track.
\<close>

theorem ChangeAllocator_leaves_old_nodes_allocated:
  "\<exists>w'. ChangeAllocator 1 2 world_1234 = Some (Ok () w') \<and>
         output_deque 1 w' = Some (Ok [1, 2, 3, 4] w') \<and>
         allocStrategy (allocator (deques w' 1)) = 2 \<and>
         allocEls w' 1 = [1, 2, 3, 4] \<and>
         map_of (blocks w') 1 \<noteq> None \<and> map_of (blocks w') 2 \<noteq> None \<and>
         map_of (blocks w') 3 \<noteq> None \<and> map_of (blocks w') 4 \<noteq> None \<and>
         start (deques w' 1) \<noteq> 4"
proof -
  have ne: "[4, 3, 1, 2] \<noteq> ([]::nat list)" by simp
  have s2: "(2::nat) \<noteq> 0" by simp
  have other: "2 \<noteq> allocStrategy (allocator (deques world_1234 1))"
    using world_1234_tracked(1) by simp
  have room: "length [1, 2, 3, 4 :: int] * node_cost \<le> avail world_1234"
    by (simp add: world_1234_avail node_cost_def sizeof_node_t_def sizeof_list_node_def)
  from ChangeAllocator_other_strategy[OF world_1234_inv ne s2 other room world_1234_tracked(3)]
  obtain w' bs where r: "ChangeAllocator 1 2 world_1234 = Some (Ok () w')"
    "deque_inv w' 1 bs [1, 2, 3, 4]" "set bs \<inter> set [4, 3, 1, 2] = {}"
    "allocStrategy (allocator (deques w' 1)) = 2"
    "allocEls w' 1 = [1, 2, 3, 4]"
    "\<forall>a \<in> set [4, 3, 1, 2]. map_of (blocks w') a \<noteq> None"
    unfolding world_1234_tracked(1,2) by blast
  have bne: "bs \<noteq> []" using r(2) dseg_length unfolding deque_inv_def by fastforce
  then have "hd bs \<in> set bs" by simp
  then have "start (deques w' 1) \<noteq> 4" using deque_inv_ends(1)[OF r(2) bne] r(3) by auto
  then show ?thesis using r output_deque_ok[OF r(2)] by auto
qed

text \<open>
  Claim C2, at the same deque, migrated to the strategy it already has. Before the call
  the deque satisfies the invariant of the data model. \<^verbatim>\<open>ChangeAllocator\<close> returns,
  and afterwards \<^verbatim>\<open>start\<close> is a non-null pointer to a node that has been freed: the
  tail cannot be reached from the head, the invariant fails and printing the deque is a
  fault. \<^verbatim>\<open>FreeList\<close> was handed the new list, which this time the old
  strategy does track.
\<close>

theorem ChangeAllocator_same_strategy_breaks_links:
  "linked world_1234 1 \<and>
   (\<exists>w'. ChangeAllocator 1 1 world_1234 = Some (Ok () w') \<and>
         start (deques w' 1) \<noteq> 0 \<and> get_node w' (start (deques w' 1)) = None \<and>
         \<not> linked w' 1 \<and> output_deque 1 w' = Some (Fault InvalidAccess))"
proof -
  have ne: "[4, 3, 1, 2] \<noteq> ([]::nat list)" by simp
  have room: "length [1, 2, 3, 4 :: int] * node_cost \<le> avail world_1234"
    by (simp add: world_1234_avail node_cost_def sizeof_node_t_def sizeof_list_node_def)
  from ChangeAllocator_same_strategy[OF world_1234_inv ne room]
  obtain w' bs where r: "ChangeAllocator 1 1 world_1234 = Some (Ok () w')"
    "start (deques w' 1) = hd bs" "tail (deques w' 1) = last bs"
    "distinct bs" "length bs = 4" "0 \<notin> set bs"
    "\<forall>b \<in> set bs. mem w' b = None \<and> map_of (blocks w') b = None"
    unfolding world_1234_tracked(1) by auto
  have bne: "bs \<noteq> []" using r(5) by auto
  then have hd_in: "hd bs \<in> set bs" by simp
  then have st0: "start (deques w' 1) \<noteq> 0" using r(2,6) by metis
  have dead: "get_node w' (start (deques w' 1)) = None"
    using r(2,7) hd_in st0 by simp
  have "hd bs \<noteq> last bs" using distinct_hd_last[OF r(4)] r(5) by simp
  then have nl: "\<not> linked w' 1" using dangling_not_linked[OF st0 dead] r(2,3) by simp
  have out: "output_deque 1 w' = Some (Fault InvalidAccess)"
    unfolding output_deque_def using st0 dead by (subst output_nodes.simps) simp
  show ?thesis using deque_inv_linked[OF world_1234_inv] r(1) st0 dead nl out by blast
qed

section \<open>Pop\<close>

text \<open>
  Claim C3. On an empty deque (\<^verbatim>\<open>start\<close> and \<^verbatim>\<open>tail\<close> null) \<^verbatim>\<open>PopBack\<close> and
  \<^verbatim>\<open>PopFront\<close> throw \<^verbatim>\<open>std::exception("Empty list")\<close> and the state at the
  throw is the state before the call. On a well-formed non-empty deque \<^verbatim>\<open>PopBack\<close>
  returns the value held by the tail node, which is the last value of the deque, and
  afterwards that node is no longer constructed, its block is not live and one entry for
  it is gone from the tracking list of the deque's strategy; the deque is well formed on
  the remaining nodes, and \<^verbatim>\<open>start\<close> and \<^verbatim>\<open>tail\<close> are both null when none
  remains. \<^verbatim>\<open>PopFront\<close> does the same at the head.
\<close>

theorem PopBack_PopFront_contract:
  "(IsEmpty this w \<and> tail (deques w this) = 0 \<longrightarrow>
      PopBack this w = Thrown ''Empty list'' w \<and> PopFront this w = Thrown ''Empty list'' w) \<and>
   (deque_inv w this as xs \<and> as \<noteq> [] \<longrightarrow>
      \<not> IsEmpty this w \<and>
      (\<exists>n w'. get_node w (tail (deques w this)) = Some n \<and> data n = last xs \<and>
         PopBack this w = Ok (data n) w' \<and>
         deque_inv w' this (butlast as) (butlast xs) \<and>
         mem w' (tail (deques w this)) = None \<and>
         map_of (blocks w') (tail (deques w this)) = None \<and>
         allocEls w' = (allocEls w)(allocStrategy (allocator (deques w this)) :=
           remove1 (tail (deques w this)) (allocEls w (allocStrategy (allocator (deques w this))))) \<and>
         (butlast as = [] \<longrightarrow> start (deques w' this) = 0 \<and> tail (deques w' this) = 0)) \<and>
      (\<exists>n w'. get_node w (start (deques w this)) = Some n \<and> data n = hd xs \<and>
         PopFront this w = Ok (data n) w' \<and>
         deque_inv w' this (tl as) (tl xs) \<and>
         mem w' (start (deques w this)) = None \<and>
         map_of (blocks w') (start (deques w this)) = None \<and>
         allocEls w' = (allocEls w)(allocStrategy (allocator (deques w this)) :=
           remove1 (start (deques w this)) (allocEls w (allocStrategy (allocator (deques w this))))) \<and>
         (tl as = [] \<longrightarrow> start (deques w' this) = 0 \<and> tail (deques w' this) = 0)))"
proof (intro conjI impI)
  assume "IsEmpty this w \<and> tail (deques w this) = 0"
  then show "PopBack this w = Thrown ''Empty list'' w" "PopFront this w = Thrown ''Empty list'' w"
    by (simp_all add: PopBack_def PopFront_def IsEmpty_def)
next
  assume a: "deque_inv w this as xs \<and> as \<noteq> []"
  then have inv: "deque_inv w this as xs" and ne: "as \<noteq> []" by auto
  note ends = deque_inv_ends[OF inv ne]
  have "hd as \<in> set as" using ne by simp
  then have "hd as \<noteq> 0" using inv dseg_nonzero[of "mem w" 0 _ as xs 0]
    unfolding deque_inv_def by metis
  then show "\<not> IsEmpty this w" using ends(1) by (simp add: IsEmpty_def)
  from PopBack_ok[OF inv ne] ends(4)
  obtain w' n where b: "PopBack this w = Ok (last xs) w'"
    "deque_inv w' this (butlast as) (butlast xs)"
    "mem w' (last as) = None" "map_of (blocks w') (last as) = None"
    "allocEls w' = (allocEls w)(allocStrategy (allocator (deques w this)) :=
                    remove1 (last as) (allocEls w (allocStrategy (allocator (deques w this)))))"
    "get_node w (last as) = Some n" "data n = last xs"
    by blast
  have "butlast as = [] \<longrightarrow> start (deques w' this) = 0 \<and> tail (deques w' this) = 0"
    using b(2) deque_inv_empty by metis
  with b show "\<exists>n w'. get_node w (tail (deques w this)) = Some n \<and> data n = last xs \<and>
         PopBack this w = Ok (data n) w' \<and>
         deque_inv w' this (butlast as) (butlast xs) \<and>
         mem w' (tail (deques w this)) = None \<and>
         map_of (blocks w') (tail (deques w this)) = None \<and>
         allocEls w' = (allocEls w)(allocStrategy (allocator (deques w this)) :=
           remove1 (tail (deques w this)) (allocEls w (allocStrategy (allocator (deques w this))))) \<and>
         (butlast as = [] \<longrightarrow> start (deques w' this) = 0 \<and> tail (deques w' this) = 0)"
    unfolding ends(2) by auto
  from PopFront_ok[OF inv ne] ends(3)
  obtain w' n where f: "PopFront this w = Ok (hd xs) w'"
    "deque_inv w' this (tl as) (tl xs)"
    "mem w' (hd as) = None" "map_of (blocks w') (hd as) = None"
    "allocEls w' = (allocEls w)(allocStrategy (allocator (deques w this)) :=
                    remove1 (hd as) (allocEls w (allocStrategy (allocator (deques w this)))))"
    "get_node w (hd as) = Some n" "data n = hd xs"
    by blast
  have "tl as = [] \<longrightarrow> start (deques w' this) = 0 \<and> tail (deques w' this) = 0"
    using f(2) deque_inv_empty by metis
  with f show "\<exists>n w'. get_node w (start (deques w this)) = Some n \<and> data n = hd xs \<and>
         PopFront this w = Ok (data n) w' \<and>
         deque_inv w' this (tl as) (tl xs) \<and>
         mem w' (start (deques w this)) = None \<and>
         map_of (blocks w') (start (deques w this)) = None \<and>
         allocEls w' = (allocEls w)(allocStrategy (allocator (deques w this)) :=
           remove1 (start (deques w this)) (allocEls w (allocStrategy (allocator (deques w this))))) \<and>
         (tl as = [] \<longrightarrow> start (deques w' this) = 0 \<and> tail (deques w' this) = 0)"
    unfolding ends(1) by auto
qed

theorem PopBack_PopFront_contract_witness:
  "IsEmpty 2 world_1234 \<and> tail (deques world_1234 2) = 0 \<and>
   PopBack 2 world_1234 = Thrown ''Empty list'' world_1234 \<and>
   PopFront 2 world_1234 = Thrown ''Empty list'' world_1234 \<and>
   deque_inv world_1234 1 [4, 3, 1, 2] [1, 2, 3, 4] \<and>
   (\<exists>w'. PopBack 1 world_1234 = Ok 4 w' \<and> deque_inv w' 1 [4, 3, 1] [1, 2, 3]) \<and>
   (\<exists>w'. PopFront 1 world_1234 = Ok 1 w' \<and> deque_inv w' 1 [3, 1, 2] [2, 3, 4])"
proof -
  have e: "IsEmpty 2 world_1234 \<and> tail (deques world_1234 2) = 0"
    by (simp add: world_1234_def IsEmpty_def)
  have i: "deque_inv world_1234 1 [4, 3, 1, 2] [1, 2, 3, 4] \<and> [4, 3, 1, 2] \<noteq> ([]::nat list)"
    using world_1234_inv by simp
  note c = PopBack_PopFront_contract[of 2 world_1234] 
  note d = PopBack_PopFront_contract[of 1 world_1234 "[4, 3, 1, 2]" "[1, 2, 3, 4]"]
  from c e have t: "PopBack 2 world_1234 = Thrown ''Empty list'' world_1234"
    "PopFront 2 world_1234 = Thrown ''Empty list'' world_1234" by blast+
  from d i have "\<exists>w'. PopBack 1 world_1234 = Ok 4 w' \<and> deque_inv w' 1 [4, 3, 1] [1, 2, 3]"
    by force
  moreover from d i have "\<exists>w'. PopFront 1 world_1234 = Ok 1 w' \<and> deque_inv w' 1 [3, 1, 2] [2, 3, 4]"
    by force
  ultimately show ?thesis using e i t by blast
qed

section \<open>Order of pushes and pops\<close>

text \<open>
  Claim C4. On a well-formed deque with values \<open>xs\<close>, any run of \<^verbatim>\<open>PushBack\<close>,
  \<^verbatim>\<open>PushFront\<close>, \<^verbatim>\<open>PopBack\<close> and \<^verbatim>\<open>PopFront\<close> that never pops from the empty
  sequence, with memory for its pushes (\<open>node_cost\<close> bytes for each: the node and the
  list node that records it), returns the values and leaves the sequence that
  the same run gives on a plain sequence (push at the back appends, push at the front
  prepends, pops take the last and the first value); a run that does pop from the empty
  sequence ends in the exception of that pop. In particular, from an empty deque,
  \<^verbatim>\<open>PushBack\<close> of \<open>vs\<close> followed by as many \<^verbatim>\<open>PopFront\<close> returns \<open>vs\<close>
  (insertion order), followed by as many \<^verbatim>\<open>PopBack\<close> it returns \<open>rev vs\<close>, and the
  deque is empty again. From a fresh deque with 1000 bytes available: \<^verbatim>\<open>PushBack(3),
  PushBack(4)\<close> prints \<open>[3,4]\<close>; then \<^verbatim>\<open>PushFront(2), PushFront(1)\<close> prints
  \<open>[1,2,3,4]\<close>; then \<^verbatim>\<open>PopFront()\<close> returns 1 and leaves \<open>[2,3,4]\<close>; then
  \<^verbatim>\<open>PopBack()\<close> returns 4 and leaves \<open>[2,3]\<close>.
\<close>

theorem push_pop_order:
  "(deque_inv w d as xs \<and> spec_ops ops xs out = Some (out', xs') \<and>
    pushes ops * node_cost \<le> avail w \<longrightarrow>
      (\<exists>w'. run_ops ops d out w = Ok out' w' \<and> output_deque d w' = Some (Ok xs' w') \<and>
            (\<exists>as'. deque_inv w' d as' xs'))) \<and>
   (deque_inv w d as xs \<and> spec_ops ops xs out = None \<and>
    pushes ops * node_cost \<le> avail w \<longrightarrow>
      (\<exists>w'. run_ops ops d out w = Thrown ''Empty list'' w')) \<and>
   (deque_inv w d [] [] \<and> length vs * node_cost \<le> avail w \<longrightarrow>
      (\<exists>w'. run_ops (map OpPushBack vs @ replicate (length vs) OpPopFront) d [] w = Ok vs w' \<and>
            IsEmpty d w') \<and>
      (\<exists>w'. run_ops (map OpPushBack vs @ replicate (length vs) OpPopBack) d [] w = Ok (rev vs) w' \<and>
            IsEmpty d w')) \<and>
   (\<exists>w2 w4 w5 w6.
      run_ops [OpPushBack 3, OpPushBack 4] 1 [] (deque_ctor 1 1 (initial_world 1000)) = Ok [] w2 \<and>
      output_deque 1 w2 = Some (Ok [3, 4 :: int] w2) \<and>
      run_ops [OpPushFront 2, OpPushFront 1] 1 [] w2 = Ok [] w4 \<and>
      output_deque 1 w4 = Some (Ok [1, 2, 3, 4] w4) \<and>
      PopFront 1 w4 = Ok 1 w5 \<and> output_deque 1 w5 = Some (Ok [2, 3, 4] w5) \<and>
      PopBack 1 w5 = Ok 4 w6 \<and> output_deque 1 w6 = Some (Ok [2, 3] w6))"
proof (intro conjI impI)
  assume a: "deque_inv w d as xs \<and> spec_ops ops xs out = Some (out', xs') \<and>
    pushes ops * node_cost \<le> avail w"
  then have "deque_inv w d as xs" "spec_ops ops xs out = Some (out', xs')"
    "pushes ops * node_cost \<le> avail w" by auto
  from run_ops_refines[OF this]
  show "\<exists>w'. run_ops ops d out w = Ok out' w' \<and> output_deque d w' = Some (Ok xs' w') \<and>
            (\<exists>as'. deque_inv w' d as' xs')"
    using output_deque_ok by blast
next
  assume a: "deque_inv w d as xs \<and> spec_ops ops xs out = None \<and>
    pushes ops * node_cost \<le> avail w"
  then have "deque_inv w d as xs" "spec_ops ops xs out = None"
    "pushes ops * node_cost \<le> avail w" by auto
  from run_ops_empty_pop[OF this]
  show "\<exists>w'. run_ops ops d out w = Thrown ''Empty list'' w'" by blast
next
  assume a: "deque_inv w d [] [] \<and> length vs * node_cost \<le> avail w"
  then have inv: "deque_inv w d [] []" and room: "length vs * node_cost \<le> avail w" by auto
  have s1: "spec_ops (map OpPushBack vs @ replicate (length vs) OpPopFront) [] [] = Some (vs, [])"
    using spec_ops_pop_front[of vs "[]"] by (simp add: spec_ops_push_back)
  have r1: "pushes (map OpPushBack vs @ replicate (length vs) OpPopFront) * node_cost \<le> avail w"
    using room by (simp add: pushes_append pushes_map_push pushes_replicate_pop)
  from run_ops_refines[OF inv s1 r1]
  show "\<exists>w'. run_ops (map OpPushBack vs @ replicate (length vs) OpPopFront) d [] w = Ok vs w' \<and>
            IsEmpty d w'"
    using deque_inv_no_values by blast
  have s2: "spec_ops (map OpPushBack vs @ replicate (length vs) OpPopBack) [] [] = Some (rev vs, [])"
    using spec_ops_pop_back[of vs "[]"] by (simp add: spec_ops_push_back)
  have r2: "pushes (map OpPushBack vs @ replicate (length vs) OpPopBack) * node_cost \<le> avail w"
    using room by (simp add: pushes_append pushes_map_push pushes_replicate_pop)
  from run_ops_refines[OF inv s2 r2]
  show "\<exists>w'. run_ops (map OpPushBack vs @ replicate (length vs) OpPopBack) d [] w = Ok (rev vs) w' \<and>
            IsEmpty d w'"
    using deque_inv_no_values by blast
next
  let ?w0 = "deque_ctor 1 1 (initial_world 1000) :: int world"
  have i0: "deque_inv ?w0 1 [] []" by (simp add: deque_inv_def deque_ctor_def initial_world_def)
  have a0: "avail ?w0 = 1000" by (simp add: deque_ctor_def initial_world_def)
  have "spec_ops [OpPushBack 3, OpPushBack 4] [] [] = Some ([], [3, 4 :: int])" by simp
  from run_ops_refines[OF i0 this] a0
  obtain w2 as2 where w2: "run_ops [OpPushBack 3, OpPushBack 4] 1 [] ?w0 = Ok [] w2"
    "deque_inv w2 1 as2 [3, 4]" "1000 - 2 * node_cost \<le> avail w2"
    by (auto simp: node_cost_def sizeof_node_t_def sizeof_list_node_def)
  have "spec_ops [OpPushFront 2, OpPushFront 1] [3, 4] [] = Some ([], [1, 2, 3, 4 :: int])" by simp
  from run_ops_refines[OF w2(2) this] w2(3)
  obtain w4 as4 where w4: "run_ops [OpPushFront 2, OpPushFront 1] 1 [] w2 = Ok [] w4"
    "deque_inv w4 1 as4 [1, 2, 3, 4]"
    by (auto simp: node_cost_def sizeof_node_t_def sizeof_list_node_def)
  have "as4 \<noteq> []" using w4(2) dseg_length unfolding deque_inv_def by fastforce
  from PopFront_ok[OF w4(2) this]
  obtain w5 where w5: "PopFront 1 w4 = Ok 1 w5" "deque_inv w5 1 (tl as4) [2, 3, 4]" by auto
  have "tl as4 \<noteq> []" using w5(2) dseg_length unfolding deque_inv_def by fastforce
  from PopBack_ok[OF w5(2) this]
  obtain w6 where w6: "PopBack 1 w5 = Ok 4 w6" "deque_inv w6 1 (butlast (tl as4)) [2, 3]" by auto
  show "\<exists>w2 w4 w5 w6.
      run_ops [OpPushBack 3, OpPushBack 4] 1 [] ?w0 = Ok [] w2 \<and>
      output_deque 1 w2 = Some (Ok [3, 4 :: int] w2) \<and>
      run_ops [OpPushFront 2, OpPushFront 1] 1 [] w2 = Ok [] w4 \<and>
      output_deque 1 w4 = Some (Ok [1, 2, 3, 4] w4) \<and>
      PopFront 1 w4 = Ok 1 w5 \<and> output_deque 1 w5 = Some (Ok [2, 3, 4] w5) \<and>
      PopBack 1 w5 = Ok 4 w6 \<and> output_deque 1 w6 = Some (Ok [2, 3] w6)"
    using w2(1) w4(1) w5(1) w6(1) output_deque_ok[OF w2(2)] output_deque_ok[OF w4(2)]
      output_deque_ok[OF w5(2)] output_deque_ok[OF w6(2)]
    by blast
qed

theorem push_pop_order_witness:
  "deque_inv world_1234 1 [4, 3, 1, 2] [1, 2, 3, 4] \<and>
   spec_ops [OpPopFront, OpPushBack 5, OpPopBack, OpPopBack] [1, 2, 3, 4] [] = Some ([1, 5, 4], [2, 3 :: int]) \<and>
   pushes [OpPopFront, OpPushBack 5, OpPopBack, OpPopBack :: int deque_op] * node_cost \<le> avail world_1234 \<and>
   (\<exists>w'. run_ops [OpPopFront, OpPushBack 5, OpPopBack, OpPopBack] 1 [] world_1234 = Ok [1, 5, 4] w' \<and>
         output_deque 1 w' = Some (Ok [2, 3] w')) \<and>
   deque_inv world_1234 2 [] [] \<and> length [7, 8, 9 :: int] * node_cost \<le> avail world_1234 \<and>
   (\<exists>w'. run_ops (map OpPushBack [7, 8, 9] @ replicate (length [7, 8, 9 :: int]) OpPopFront) 2 []
            world_1234 = Ok [7, 8, 9] w') \<and>
   (\<exists>w'. run_ops (map OpPushBack [7, 8, 9] @ replicate (length [7, 8, 9 :: int]) OpPopBack) 2 []
            world_1234 = Ok (rev [7, 8, 9]) w')"
proof -
  have s: "spec_ops [OpPopFront, OpPushBack 5, OpPopBack, OpPopBack] [1, 2, 3, 4] [] =
             Some ([1, 5, 4], [2, 3 :: int])" by simp
  have r: "pushes [OpPopFront, OpPushBack 5, OpPopBack, OpPopBack :: int deque_op] * node_cost
             \<le> avail world_1234"
    by (simp add: world_1234_avail node_cost_def sizeof_node_t_def sizeof_list_node_def)
  have r2: "length [7, 8, 9 :: int] * node_cost \<le> avail world_1234"
    by (simp add: world_1234_avail node_cost_def sizeof_node_t_def sizeof_list_node_def)
  note t1 = push_pop_order[of world_1234 1 "[4, 3, 1, 2]" "[1, 2, 3, 4]"
      "[OpPopFront, OpPushBack 5, OpPopBack, OpPopBack]" "[]" "[1, 5, 4]" "[2, 3]"]
  note t2 = push_pop_order[of world_1234 2 _ _ _ _ _ _ "[7, 8, 9]"]
  have c1: "\<exists>w'. run_ops [OpPopFront, OpPushBack 5, OpPopBack, OpPopBack] 1 [] world_1234 = Ok [1, 5, 4] w' \<and>
         output_deque 1 w' = Some (Ok [2, 3] w')"
    using t1 world_1234_inv s r by blast
  have c2: "\<exists>w'. run_ops (map OpPushBack [7, 8, 9] @ replicate (length [7, 8, 9 :: int]) OpPopFront) 2 []
            world_1234 = Ok [7, 8, 9] w'"
    using t2 world_1234_inv2 r2 by blast
  have c3: "\<exists>w'. run_ops (map OpPushBack [7, 8, 9] @ replicate (length [7, 8, 9 :: int]) OpPopBack) 2 []
            world_1234 = Ok (rev [7, 8, 9]) w'"
    using t2 world_1234_inv2 r2 by blast
  show ?thesis
    by (intro conjI world_1234_inv world_1234_inv2 s r r2 c1 c2 c3)
qed

section \<open>Copying\<close>

text \<open>
  Claim C5. Let the source \<open>lhs\<close> be a well-formed deque with values \<open>xs\<close> (of any
  length), let the destination \<open>this\<close> be another deque object, and let memory for
  \<open>length xs\<close> nodes be available (\<open>node_cost\<close> bytes for each: the node and the
  list node that records it). Each of the copy constructor, the copy constructor
  with a strategy, copy assignment and \<^verbatim>\<open>Copy\<close> (the last two on a well-formed
  destination whose nodes are not the source's) returns, and afterwards the destination is
  a well-formed deque with the same values on as many nodes, none of which is a node of
  the source, under the source's strategy or the one supplied; the source is as before.
  For an empty source \<^verbatim>\<open>start\<close> and \<^verbatim>\<open>tail\<close> of the destination are null; for a
  single value they are the same non-null node, which is not the source's. Whatever run of
  pushes, pops, clears and assignments through an iterator is then applied to one of the
  two deques, the other one keeps its nodes and its values.
\<close>

theorem copy_builds_independent_list:
  assumes inv: "deque_inv w lhs as xs" and neq: "this \<noteq> lhs"
    and room: "length xs * node_cost \<le> avail w"
    and op: "(cp = copy_ctor this lhs \<and> s = allocStrategy (allocator (deques w lhs))) \<or>
             (cp = copy_ctor_strategy this lhs s \<and> s \<noteq> 0) \<or>
             (deque_inv w this cs zs \<and> set cs \<inter> set as = {} \<and>
              ((cp = copy_assign this lhs \<and> s = allocStrategy (allocator (deques w lhs))) \<or>
               (cp = Copy this lhs s \<and> s \<noteq> 0)))"
  shows "\<exists>w' bs. cp w = Some (Ok () w') \<and>
           deque_inv w' this bs xs \<and> deque_inv w' lhs as xs \<and>
           set bs \<inter> set as = {} \<and> length bs = length as \<and>
           allocStrategy (allocator (deques w' this)) = s \<and>
           (xs = [] \<longrightarrow> start (deques w' this) = 0 \<and> tail (deques w' this) = 0) \<and>
           (length xs = 1 \<longrightarrow> start (deques w' this) = tail (deques w' this) \<and>
                              start (deques w' this) \<noteq> 0 \<and>
                              start (deques w' this) \<noteq> start (deques w' lhs)) \<and>
           (\<forall>ms u w''. mutate_seq ms this w' = Some (Ok u w'') \<longrightarrow> deque_inv w'' lhs as xs) \<and>
           (\<forall>ms u w''. mutate_seq ms lhs w' = Some (Ok u w'') \<longrightarrow> deque_inv w'' this bs xs)"
proof -
  have "\<exists>w' bs. cp w = Some (Ok () w') \<and>
           deque_inv w' this bs xs \<and> deque_inv w' lhs as xs \<and>
           set bs \<inter> set as = {} \<and> length bs = length as \<and>
           allocStrategy (allocator (deques w' this)) = s"
    using op
  proof (elim disjE conjE)
    assume "cp = copy_ctor this lhs" "s = allocStrategy (allocator (deques w lhs))"
    then show ?thesis using copy_ctor_ok[OF inv neq room] by simp
  next
    assume "cp = copy_ctor_strategy this lhs s" "s \<noteq> 0"
    then show ?thesis using copy_ctor_strategy_ok[OF inv neq room] by simp
  next
    assume "deque_inv w this cs zs" "set cs \<inter> set as = {}"
      "cp = copy_assign this lhs" "s = allocStrategy (allocator (deques w lhs))"
    then show ?thesis using copy_assign_ok[OF inv neq room] by simp
  next
    assume "deque_inv w this cs zs" "set cs \<inter> set as = {}" "cp = Copy this lhs s" "s \<noteq> 0"
    then show ?thesis using Copy_ok[OF inv neq room] by simp
  qed
  then obtain w' bs where c: "cp w = Some (Ok () w')"
    "deque_inv w' this bs xs" "deque_inv w' lhs as xs"
    "set bs \<inter> set as = {}" "length bs = length as"
    "allocStrategy (allocator (deques w' this)) = s"
    by blast
  have len: "length bs = length xs" "length as = length xs"
    using c(2,3) dseg_length unfolding deque_inv_def by blast+
  have e: "xs = [] \<longrightarrow> start (deques w' this) = 0 \<and> tail (deques w' this) = 0"
    using len(1) c(2) deque_inv_empty by fastforce
  have o: "length xs = 1 \<longrightarrow> start (deques w' this) = tail (deques w' this) \<and>
             start (deques w' this) \<noteq> 0 \<and> start (deques w' this) \<noteq> start (deques w' lhs)"
  proof
    assume l1: "length xs = 1"
    then obtain b where b: "bs = [b]" using len(1) by (cases bs) auto
    from l1 obtain a where a: "as = [a]" using len(2) by (cases as) auto
    have "start (deques w' this) = b" "tail (deques w' this) = b"
      using deque_inv_ends(1,2)[OF c(2)] b by auto
    moreover have "start (deques w' lhs) = a" using deque_inv_ends(1)[OF c(3)] a by auto
    moreover have "b \<noteq> 0" using c(2) dseg_nonzero[of "mem w'" 0 _ bs xs 0] b
      unfolding deque_inv_def by auto
    moreover have "b \<noteq> a" using c(4) a b by auto
    ultimately show "start (deques w' this) = tail (deques w' this) \<and>
             start (deques w' this) \<noteq> 0 \<and> start (deques w' this) \<noteq> start (deques w' lhs)"
      by simp
  qed
  have m1: "\<forall>ms u w''. mutate_seq ms this w' = Some (Ok u w'') \<longrightarrow> deque_inv w'' lhs as xs"
    using mutate_seq_independent[OF c(2) c(3) _ c(4)] neq by blast
  have m2: "\<forall>ms u w''. mutate_seq ms lhs w' = Some (Ok u w'') \<longrightarrow> deque_inv w'' this bs xs"
    using mutate_seq_independent[OF c(3) c(2) neq] c(4) by blast
  show ?thesis using c e o m1 m2 by blast
qed

theorem copy_builds_independent_list_witness:
  "deque_inv world_1234 1 [4, 3, 1, 2] [1, 2, 3, 4] \<and> (2::nat) \<noteq> 1 \<and>
   length [1, 2, 3, 4 :: int] * node_cost \<le> avail world_1234 \<and>
   deque_inv world_1234 2 [] [] \<and>
   (\<exists>w' bs. copy_assign 2 1 world_1234 = Some (Ok () w') \<and>
      deque_inv w' 2 bs [1, 2, 3, 4] \<and> deque_inv w' 1 [4, 3, 1, 2] [1, 2, 3, 4] \<and>
      set bs \<inter> set [4, 3, 1, 2] = {} \<and>
      (\<forall>ms u w''. mutate_seq ms 2 w' = Some (Ok u w'') \<longrightarrow>
         deque_inv w'' 1 [4, 3, 1, 2] [1, 2, 3, 4]))"
proof -
  have room: "length [1, 2, 3, 4 :: int] * node_cost \<le> avail world_1234"
    by (simp add: world_1234_avail node_cost_def sizeof_node_t_def sizeof_list_node_def)
  have op: "(copy_assign 2 1 = copy_ctor 2 1 \<and> 1 = allocStrategy (allocator (deques world_1234 1))) \<or>
             (copy_assign 2 1 = copy_ctor_strategy 2 1 1 \<and> (1::nat) \<noteq> 0) \<or>
             (deque_inv world_1234 2 [] [] \<and> set [] \<inter> set [4, 3, 1, 2 :: nat] = {} \<and>
              ((copy_assign 2 1 = copy_assign 2 1 \<and> 1 = allocStrategy (allocator (deques world_1234 1))) \<or>
               (copy_assign 2 1 = Copy 2 1 1 \<and> (1::nat) \<noteq> 0)))"
    using world_1234_inv2 by (simp add: world_1234_def)
  have n: "(2::nat) \<noteq> 1" by simp
  from copy_builds_independent_list[OF world_1234_inv n room op]
  obtain w' bs where r: "copy_assign 2 1 world_1234 = Some (Ok () w')"
    "deque_inv w' 2 bs [1, 2, 3, 4]" "deque_inv w' 1 [4, 3, 1, 2] [1, 2, 3, 4]"
    "set bs \<inter> set [4, 3, 1, 2] = {}"
    "\<forall>ms u w''. mutate_seq ms 2 w' = Some (Ok u w'') \<longrightarrow>
         deque_inv w'' 1 [4, 3, 1, 2] [1, 2, 3, 4]"
    by (elim exE conjE)
  show ?thesis
    by (intro conjI world_1234_inv world_1234_inv2 room n exI[of _ w'] exI[of _ bs] r)
qed

section \<open>Moving\<close>

text \<open>
  Claim C6. Let the source \<open>rhs\<close> be a well-formed deque with nodes \<open>as\<close> and values
  \<open>xs\<close>, and the destination \<open>this\<close> another deque object. After the move
  constructor, and after move assignment to a well-formed destination whose nodes are not
  the source's, the destination has the source's former \<^verbatim>\<open>start\<close>, \<^verbatim>\<open>tail\<close> and
  allocator and is a well-formed deque on the very same nodes, so it prints \<open>xs\<close>; the
  source has null \<^verbatim>\<open>start\<close> and \<^verbatim>\<open>tail\<close>, \<^verbatim>\<open>IsEmpty\<close> holds for it, it prints
  nothing and reaches no node (its allocator handle is the empty one that the move left
  behind). Move assignment returns, and the nodes the destination held before are freed.
\<close>

theorem move_transfers_ownership:
  assumes inv: "deque_inv w rhs as xs" and neq: "this \<noteq> rhs"
  shows "(w' = move_ctor this rhs w \<or>
          (deque_inv w this cs zs \<and> set cs \<inter> set as = {} \<and>
           move_assign this rhs w = Some (Ok () w')) \<longrightarrow>
            start (deques w' this) = start (deques w rhs) \<and>
            tail (deques w' this) = tail (deques w rhs) \<and>
            allocator (deques w' this) = allocator (deques w rhs) \<and>
            deque_inv w' this as xs \<and>
            start (deques w' rhs) = 0 \<and> tail (deques w' rhs) = 0 \<and> IsEmpty rhs w' \<and>
            allocStrategy (allocator (deques w' rhs)) = 0 \<and>
            output_deque this w' = Some (Ok xs w') \<and>
            output_deque rhs w' = Some (Ok [] w')) \<and>
         (deque_inv w this cs zs \<and> set cs \<inter> set as = {} \<longrightarrow>
            (\<exists>w1. move_assign this rhs w = Some (Ok () w1) \<and>
                  (\<forall>c \<in> set cs. mem w1 c = None \<and> map_of (blocks w1) c = None)))"
proof (intro conjI impI)
  assume a: "w' = move_ctor this rhs w \<or>
          (deque_inv w this cs zs \<and> set cs \<inter> set as = {} \<and>
           move_assign this rhs w = Some (Ok () w'))"
  have p: "start (deques w' this) = start (deques w rhs) \<and>
            tail (deques w' this) = tail (deques w rhs) \<and>
            allocator (deques w' this) = allocator (deques w rhs) \<and>
            deque_inv w' this as xs \<and>
            deques w' rhs = \<lparr>start = 0, tail = 0, allocator = \<lparr>allocStrategy = 0\<rparr>\<rparr>"
    using a
  proof
    assume "w' = move_ctor this rhs w"
    then show ?thesis using move_ctor_ok[OF inv neq] by simp
  next
    assume b: "deque_inv w this cs zs \<and> set cs \<inter> set as = {} \<and>
           move_assign this rhs w = Some (Ok () w')"
    then have "deque_inv w this cs zs" "set cs \<inter> set as = {}" by auto
    from move_assign_ok[OF inv neq this] b show ?thesis by auto
  qed
  then have r0: "start (deques w' rhs) = 0" "tail (deques w' rhs) = 0"
    "allocStrategy (allocator (deques w' rhs)) = 0" by simp_all
  show "start (deques w' this) = start (deques w rhs)" "tail (deques w' this) = tail (deques w rhs)"
    "allocator (deques w' this) = allocator (deques w rhs)" "deque_inv w' this as xs"
    using p by auto
  show "start (deques w' rhs) = 0" "tail (deques w' rhs) = 0"
    "allocStrategy (allocator (deques w' rhs)) = 0" by (rule r0)+
  show "IsEmpty rhs w'" using r0 by (simp add: IsEmpty_def)
  show "output_deque this w' = Some (Ok xs w')" using p output_deque_ok by blast
  show "output_deque rhs w' = Some (Ok [] w')" using r0(1) by (rule output_deque_null)
next
  assume "deque_inv w this cs zs \<and> set cs \<inter> set as = {}"
  then have "deque_inv w this cs zs" "set cs \<inter> set as = {}" by auto
  from move_assign_ok[OF inv neq this]
  show "\<exists>w1. move_assign this rhs w = Some (Ok () w1) \<and>
                  (\<forall>c \<in> set cs. mem w1 c = None \<and> map_of (blocks w1) c = None)"
    by blast
qed

theorem move_transfers_ownership_witness:
  "deque_inv world_1234 1 [4, 3, 1, 2] [1, 2, 3, 4] \<and> (2::nat) \<noteq> 1 \<and>
   deque_inv world_1234 2 [] [] \<and>
   deque_inv (move_ctor 3 1 world_1234) 3 [4, 3, 1, 2] [1, 2, 3, 4] \<and>
   IsEmpty 1 (move_ctor 3 1 world_1234) \<and>
   (\<exists>w1. move_assign 2 1 world_1234 = Some (Ok () w1) \<and>
      deque_inv w1 2 [4, 3, 1, 2] [1, 2, 3, 4] \<and> IsEmpty 1 w1 \<and>
      output_deque 2 w1 = Some (Ok [1, 2, 3, 4] w1) \<and> output_deque 1 w1 = Some (Ok [] w1))"
proof -
  have n: "(2::nat) \<noteq> 1" "(3::nat) \<noteq> 1" by simp_all
  have d: "deque_inv world_1234 2 [] [] \<and> set [] \<inter> set [4, 3, 1, 2 :: nat] = {}"
    using world_1234_inv2 by simp
  note t3 = move_transfers_ownership[OF world_1234_inv n(2), of "move_ctor 3 1 world_1234"]
  have c: "deque_inv (move_ctor 3 1 world_1234) 3 [4, 3, 1, 2] [1, 2, 3, 4]"
    "IsEmpty 1 (move_ctor 3 1 world_1234)"
    using t3 by blast+
  note t2 = move_transfers_ownership[OF world_1234_inv n(1), of _ "[]" "[]"]
  from t2 d obtain w1 where w1: "move_assign 2 1 world_1234 = Some (Ok () w1)" by blast
  with t2[of w1] d have "deque_inv w1 2 [4, 3, 1, 2] [1, 2, 3, 4]" "IsEmpty 1 w1"
    "output_deque 2 w1 = Some (Ok [1, 2, 3, 4] w1)" "output_deque 1 w1 = Some (Ok [] w1)"
    by blast+
  with w1 c d world_1234_inv n(1) show ?thesis by blast
qed

section \<open>Allocation when memory runs out\<close>




section \<open>The reference strategy\<close>

text \<open>
  Claim C8. \<^verbatim>\<open>stupid_strategy_t::dealloc\<close> on a pointer that the strategy does not
  track returns normally and leaves the whole state as it is. On a tracked pointer (which
  is null or a live block) it frees the block and erases exactly one entry of the tracking
  list, the first one equal to the pointer; nothing else changes, and when the list had no
  duplicate a second \<^verbatim>\<open>dealloc\<close> of the same pointer changes nothing.
\<close>

theorem stupid_strategy_dealloc_contract:
  "(ptr \<notin> set (allocEls w s) \<longrightarrow> stupid_strategy_dealloc s ptr w = Ok () w) \<and>
   (ptr \<in> set (allocEls w s) \<and> (ptr = 0 \<or> map_of (blocks w) ptr \<noteq> None) \<longrightarrow>
      (\<exists>w'. stupid_strategy_dealloc s ptr w = Ok () w' \<and>
            allocEls w' s = remove1 ptr (allocEls w s) \<and>
            length (allocEls w' s) + 1 = length (allocEls w s) \<and>
            (\<forall>t. t \<noteq> s \<longrightarrow> allocEls w' t = allocEls w t) \<and>
            (ptr \<noteq> 0 \<longrightarrow> map_of (blocks w') ptr = None \<and> mem w' ptr = None) \<and>
            (\<forall>a. a \<noteq> ptr \<longrightarrow> map_of (blocks w') a = map_of (blocks w) a \<and> mem w' a = mem w a) \<and>
            (distinct (allocEls w s) \<longrightarrow> stupid_strategy_dealloc s ptr w' = Ok () w')))"
proof (intro conjI impI)
  assume "ptr \<notin> set (allocEls w s)"
  then show "stupid_strategy_dealloc s ptr w = Ok () w"
    by (simp add: stupid_strategy_dealloc_def list_erase_def)
next
  assume a: "ptr \<in> set (allocEls w s) \<and> (ptr = 0 \<or> map_of (blocks w) ptr \<noteq> None)"
  then have len: "length (remove1 ptr (allocEls w s)) + 1 = length (allocEls w s)"
    by (simp add: length_remove1) (cases "allocEls w s"; auto)
  show "\<exists>w'. stupid_strategy_dealloc s ptr w = Ok () w' \<and>
            allocEls w' s = remove1 ptr (allocEls w s) \<and>
            length (allocEls w' s) + 1 = length (allocEls w s) \<and>
            (\<forall>t. t \<noteq> s \<longrightarrow> allocEls w' t = allocEls w t) \<and>
            (ptr \<noteq> 0 \<longrightarrow> map_of (blocks w') ptr = None \<and> mem w' ptr = None) \<and>
            (\<forall>a. a \<noteq> ptr \<longrightarrow> map_of (blocks w') a = map_of (blocks w) a \<and> mem w' a = mem w a) \<and>
            (distinct (allocEls w s) \<longrightarrow> stupid_strategy_dealloc s ptr w' = Ok () w')"
  proof (cases "ptr = 0")
    case True
    with a len show ?thesis
      by (simp add: stupid_strategy_dealloc_def list_erase_def free_def result_bind_def)
  next
    case False
    with a obtain k where k: "map_of (blocks w) ptr = Some k" by auto
    have "map_of (filter (\<lambda>b. fst b \<noteq> ptr) (blocks w)) ptr = None"
      by (auto simp: map_of_eq_None_iff)
    with a len False k show ?thesis
      by (simp add: stupid_strategy_dealloc_def list_erase_def free_def result_bind_def map_of_filter_other)
  qed
qed

theorem stupid_strategy_dealloc_contract_witness:
  "7 \<notin> set (allocEls world_1234 1) \<and>
   stupid_strategy_dealloc 1 7 world_1234 = Ok () world_1234 \<and>
   3 \<in> set (allocEls world_1234 1) \<and> map_of (blocks world_1234) 3 \<noteq> None \<and>
   (\<exists>w'. stupid_strategy_dealloc 1 3 world_1234 = Ok () w' \<and> allocEls w' 1 = [1, 2, 4] \<and>
         map_of (blocks w') 3 = None \<and> stupid_strategy_dealloc 1 3 w' = Ok () w')"
proof -
  have h1: "7 \<notin> set (allocEls world_1234 1)" by (simp add: world_1234_def)
  have h2: "3 \<in> set (allocEls world_1234 1)" "map_of (blocks world_1234) 3 \<noteq> None"
    "distinct (allocEls world_1234 1)" "remove1 3 (allocEls world_1234 1) = [1, 2, 4]"
    by (simp_all add: world_1234_def)
  from stupid_strategy_dealloc_contract[of 7 world_1234 1] h1
  have c1: "stupid_strategy_dealloc 1 7 world_1234 = Ok () world_1234" by blast
  from stupid_strategy_dealloc_contract[of 3 world_1234 1] h2
  obtain w' where "stupid_strategy_dealloc 1 3 world_1234 = Ok () w'"
    "allocEls w' 1 = [1, 2, 4]" "map_of (blocks w') 3 = None"
    "stupid_strategy_dealloc 1 3 w' = Ok () w'"
    by auto
  with h1 h2 c1 show ?thesis by blast
qed

section \<open>Iterators\<close>

text \<open>
  Claim C9. For an iterator at the end position (equal to \<^verbatim>\<open>end()\<close>), \<^verbatim>\<open>operator*\<close>,
  prefix \<^verbatim>\<open>++\<close> and postfix \<^verbatim>\<open>++\<close> throw
  \<^verbatim>\<open>std::exception("Try to use end iterator")\<close> and change nothing. For an iterator on
  a node, \<^verbatim>\<open>operator*\<close> returns a reference to that node's \<^verbatim>\<open>data\<close>: reading it
  gives the node's value and writing a value through it changes that node's value and
  nothing else; both increments move the iterator to the node's \<^verbatim>\<open>next\<close>. On a
  well-formed deque the traversal from \<^verbatim>\<open>begin()\<close> until \<^verbatim>\<open>end()\<close> returns and
  yields the values from head to tail.
\<close>

theorem iterator_contract:
  "(iterator_eq it (deque_end d w) \<longrightarrow>
      iterator_deref it w = Thrown ''Try to use end iterator'' w \<and>
      iterator_pre_incr it w = Thrown ''Try to use end iterator'' w \<and>
      iterator_post_incr it w = Thrown ''Try to use end iterator'' w) \<and>
   (get_node w (node it) = Some n \<longrightarrow>
      iterator_deref it w = Ok (node it) w \<and>
      ref_read (node it) w = Ok (data n) w \<and>
      (\<exists>w'. ref_write (node it) v w = Ok () w' \<and> ref_read (node it) w' = Ok v w' \<and>
            get_node w' (node it) = Some (n\<lparr>data := v\<rparr>) \<and>
            (\<forall>a. a \<noteq> node it \<longrightarrow> get_node w' a = get_node w a)) \<and>
      iterator_pre_incr it w = Ok (it\<lparr>node := next_node n\<rparr>) w \<and>
      iterator_post_incr it w = Ok (it\<lparr>node := next_node n\<rparr>) w) \<and>
   (deque_inv w d as xs \<longrightarrow>
      iterate d (deque_begin d w) [] w = Some (Ok xs w))"
proof (intro conjI impI)
  assume "iterator_eq it (deque_end d w)"
  then have "node it = 0" by (simp add: iterator_eq_def deque_end_def)
  then show "iterator_deref it w = Thrown ''Try to use end iterator'' w"
    "iterator_pre_incr it w = Thrown ''Try to use end iterator'' w"
    "iterator_post_incr it w = Thrown ''Try to use end iterator'' w"
    by (simp_all add: iterator_deref_def iterator_pre_incr_def iterator_post_incr_def)
next
  assume g: "get_node w (node it) = Some n"
  then have nz: "node it \<noteq> 0" by (auto simp: get_node_def split: if_splits)
  show "iterator_deref it w = Ok (node it) w" using nz by (simp add: iterator_deref_def)
  show "ref_read (node it) w = Ok (data n) w" using g by (simp add: ref_read_def)
  show "iterator_pre_incr it w = Ok (it\<lparr>node := next_node n\<rparr>) w"
    using g nz by (simp add: iterator_pre_incr_def)
  show "iterator_post_incr it w = Ok (it\<lparr>node := next_node n\<rparr>) w"
    using g nz by (simp add: iterator_post_incr_def)
  show "\<exists>w'. ref_write (node it) v w = Ok () w' \<and> ref_read (node it) w' = Ok v w' \<and>
            get_node w' (node it) = Some (n\<lparr>data := v\<rparr>) \<and>
            (\<forall>a. a \<noteq> node it \<longrightarrow> get_node w' a = get_node w a)"
    using g nz by (simp add: ref_write_def ref_read_def get_node_def)
next
  assume "deque_inv w d as xs"
  then have "dseg (mem w) 0 (start (deques w d)) as xs 0" by (simp add: deque_inv_def)
  from iterate_ok[OF this, of d "[]"]
  show "iterate d (deque_begin d w) [] w = Some (Ok xs w)" by (simp add: deque_begin_def)
qed

theorem iterator_contract_witness:
  "iterator_eq (deque_end 1 world_1234) (deque_end 1 world_1234) \<and>
   iterator_deref (deque_end 1 world_1234) world_1234 = Thrown ''Try to use end iterator'' world_1234 \<and>
   iterator_pre_incr (deque_end 1 world_1234) world_1234 = Thrown ''Try to use end iterator'' world_1234 \<and>
   iterator_post_incr (deque_end 1 world_1234) world_1234 = Thrown ''Try to use end iterator'' world_1234 \<and>
   get_node world_1234 (node (deque_begin 1 world_1234)) =
     Some \<lparr>next_node = 3, prev_node = 0, data = 1\<rparr> \<and>
   ref_read (node (deque_begin 1 world_1234)) world_1234 = Ok 1 world_1234 \<and>
   iterator_pre_incr (deque_begin 1 world_1234) world_1234 = Ok \<lparr>node = 3\<rparr> world_1234 \<and>
   deque_inv world_1234 1 [4, 3, 1, 2] [1, 2, 3, 4] \<and>
   iterate 1 (deque_begin 1 world_1234) [] world_1234 = Some (Ok [1, 2, 3, 4] world_1234)"
proof -
  have e: "iterator_eq (deque_end 1 world_1234) (deque_end 1 world_1234)"
    by (simp add: iterator_eq_def)
  have g: "get_node world_1234 (node (deque_begin 1 world_1234)) =
     Some \<lparr>next_node = 3, prev_node = 0, data = 1\<rparr>"
    by (simp add: world_1234_def deque_begin_def get_node_def)
  note t1 = iterator_contract[of "deque_end 1 world_1234" 1 world_1234]
  note t2 = iterator_contract[of "deque_begin 1 world_1234" 1 world_1234
      "\<lparr>next_node = 3, prev_node = 0, data = 1\<rparr>" _ "[4, 3, 1, 2]" "[1, 2, 3, 4]"]
  have c1: "iterator_deref (deque_end 1 world_1234) world_1234 = Thrown ''Try to use end iterator'' world_1234"
    "iterator_pre_incr (deque_end 1 world_1234) world_1234 = Thrown ''Try to use end iterator'' world_1234"
    "iterator_post_incr (deque_end 1 world_1234) world_1234 = Thrown ''Try to use end iterator'' world_1234"
    using t1 e by blast+
  have c2: "ref_read (node (deque_begin 1 world_1234)) world_1234 = Ok 1 world_1234"
    using t2 g by simp
  have "iterator_pre_incr (deque_begin 1 world_1234) world_1234 =
          Ok ((deque_begin 1 world_1234)\<lparr>node := 3\<rparr>) world_1234"
    using t2 g by simp
  then have c3: "iterator_pre_incr (deque_begin 1 world_1234) world_1234 = Ok \<lparr>node = 3\<rparr> world_1234"
    by (simp add: deque_begin_def)
  have c4: "iterate 1 (deque_begin 1 world_1234) [] world_1234 = Some (Ok [1, 2, 3, 4] world_1234)"
    using t2 world_1234_inv by blast
  show ?thesis by (intro conjI e c1 g c2 c3 world_1234_inv c4)
qed

section \<open>Copy assignment of a deque to itself\<close>

text \<open>
  Claim C10. For a well-formed non-empty deque \<open>d\<close>, the assignment \<^verbatim>\<open>d = d\<close> first
  runs \<^verbatim>\<open>FreeList\<close> to its end, which frees every node of \<open>d\<close> under \<open>d\<close>'s own
  allocator and leaves \<^verbatim>\<open>start\<close> pointing to the first of them, and then runs
  \<^verbatim>\<open>CopyList\<close> on that pointer. The copy never returns normally: it reads the
  deallocated first node, a fault, as soon as the allocation before it has its memory,
  and it has when memory for one node was available before the call or when the blocks
  of \<open>d\<close>'s nodes have the size of a node, as all blocks have that a deque has allocated;
  otherwise that allocation ends in \<^verbatim>\<open>std::bad_alloc\<close>. When source and destination are
  distinct well-formed deques with disjoint nodes, and memory suffices, the assignment
  returns with the destination holding the source's values and the source unchanged.
\<close>

theorem self_copy_assign_reads_freed_nodes:
  assumes inv: "deque_inv w d as xs" and ne: "as \<noteq> []"
  shows "(\<exists>w1. FreeList (start (deques w d)) (allocator (deques w d)) w = Some (Ok () w1) \<and>
            deques w1 = deques w \<and>
            (\<forall>a \<in> set as. mem w1 a = None \<and> map_of (blocks w1) a = None) \<and>
            start (deques w1 d) \<noteq> 0 \<and> get_node w1 (start (deques w1 d)) = None \<and>
            (CopyList d (start (deques w1 d)) w1 = Some (Fault InvalidAccess) \<or>
             (\<exists>w'. CopyList d (start (deques w1 d)) w1 = Some (Thrown ''std::bad_alloc'' w')))) \<and>
         (copy_assign d d w = Some (Fault InvalidAccess) \<or>
          (\<exists>w'. copy_assign d d w = Some (Thrown ''std::bad_alloc'' w'))) \<and>
         (sizeof_node_t \<le> avail w \<longrightarrow> copy_assign d d w = Some (Fault InvalidAccess)) \<and>
         ((\<forall>a \<in> set as. map_of (blocks w) a = Some sizeof_node_t) \<longrightarrow>
            copy_assign d d w = Some (Fault InvalidAccess)) \<and>
         (this \<noteq> d \<and> deque_inv w this cs zs \<and> set cs \<inter> set as = {} \<and>
          length xs * node_cost \<le> avail w \<longrightarrow>
            (\<exists>w' bs. copy_assign this d w = Some (Ok () w') \<and>
                     deque_inv w' this bs xs \<and> deque_inv w' d as xs))"
proof -
  let ?d = "deques w d"
  have s: "allocStrategy (allocator ?d) \<noteq> 0" and seg: "dseg (mem w) 0 (start ?d) as xs 0"
    and dist: "distinct as"
    and own: "\<forall>a \<in> set as. a \<in> set (allocEls w (allocStrategy (allocator ?d))) \<and>
                 map_of (blocks w) a \<noteq> None"
    using inv by (auto simp: deque_inv_def)
  from FreeList_ok[OF seg dist s own]
  obtain w1 where f: "FreeList (start ?d) (allocator ?d) w = Some (Ok () w1)"
    "deques w1 = deques w" "avail w \<le> avail w1"
    "\<forall>a \<in> set as. mem w1 a = None \<and> map_of (blocks w1) a = None"
    "\<forall>k. as \<noteq> [] \<and> map_of (blocks w) (hd as) = Some k \<longrightarrow>
         avail w + k + sizeof_list_node \<le> avail w1"
    by blast
  have st: "start ?d = hd as" using deque_inv_ends(1)[OF inv ne] .
  have hd_in: "hd as \<in> set as" using ne by simp
  then have st0: "start ?d \<noteq> 0" using dseg_nonzero[OF seg] st by metis
  have dead: "get_node w1 (start ?d) = None" using f(4) hd_in st st0 by simp
  obtain k where k: "map_of (blocks w) (hd as) = Some k" using own hd_in by blast
  have gain: "avail w + k + sizeof_list_node \<le> avail w1" using f(5) ne k by blast
  let ?w2 = "set_allocator d (allocator (deques w1 d)) w1"
  have dead2: "get_node ?w2 (start ?d) = None" "allocStrategy (allocator (deques ?w2 d)) \<noteq> 0"
    "avail ?w2 = avail w1" "start (deques ?w2 d) = start ?d"
    using dead s f(2) by (auto simp: set_allocator_def get_node_def split: if_splits)
  have cl1: "CopyList d (start ?d) w1 = Some (Fault InvalidAccess) \<or>
             (\<exists>w'. CopyList d (start ?d) w1 = Some (Thrown ''std::bad_alloc'' w'))"
    using alloc_dead_fails[of "allocator (deques w1 d)" w1 "start ?d"] s f(2) dead st0
    by (auto simp: CopyList_def)
  have cl2: "CopyList d (start ?d) ?w2 = Some (Fault InvalidAccess) \<or>
             (\<exists>w'. CopyList d (start ?d) ?w2 = Some (Thrown ''std::bad_alloc'' w'))"
    using alloc_dead_fails[OF dead2(2,1)] st0 by (auto simp: CopyList_def)
  have ca: "copy_assign d d w = CopyList d (start ?d) ?w2"
    using f(1) dead2(4) by (simp add: copy_assign_def loop_bind_def Let_def)
  have reads: "copy_assign d d w = Some (Fault InvalidAccess)" if "node_cost \<le> avail w1"
  proof -
    have "node_cost \<le> avail ?w2" using that dead2(3) by simp
    from alloc_reads_dead[OF dead2(2) this dead2(1)] show ?thesis
      unfolding ca using st0 by (simp add: CopyList_def)
  qed
  have c3: "sizeof_node_t \<le> avail w \<longrightarrow> copy_assign d d w = Some (Fault InvalidAccess)"
  proof
    assume "sizeof_node_t \<le> avail w"
    then have "node_cost \<le> avail w1" using gain by (simp add: node_cost_def)
    then show "copy_assign d d w = Some (Fault InvalidAccess)" by (rule reads)
  qed
  have c3': "(\<forall>a \<in> set as. map_of (blocks w) a = Some sizeof_node_t) \<longrightarrow>
            copy_assign d d w = Some (Fault InvalidAccess)"
  proof
    assume "\<forall>a \<in> set as. map_of (blocks w) a = Some sizeof_node_t"
    then have "k = sizeof_node_t" using k hd_in by auto
    then have "node_cost \<le> avail w1" using gain by (simp add: node_cost_def)
    then show "copy_assign d d w = Some (Fault InvalidAccess)" by (rule reads)
  qed
  have c4: "this \<noteq> d \<and> deque_inv w this cs zs \<and> set cs \<inter> set as = {} \<and>
          length xs * node_cost \<le> avail w \<longrightarrow>
            (\<exists>w' bs. copy_assign this d w = Some (Ok () w') \<and>
                     deque_inv w' this bs xs \<and> deque_inv w' d as xs)"
  proof
    assume a: "this \<noteq> d \<and> deque_inv w this cs zs \<and> set cs \<inter> set as = {} \<and>
          length xs * node_cost \<le> avail w"
    then have "this \<noteq> d" "length xs * node_cost \<le> avail w" "deque_inv w this cs zs"
      "set cs \<inter> set as = {}" by auto
    from copy_assign_ok[OF inv this] show "\<exists>w' bs. copy_assign this d w = Some (Ok () w') \<and>
                     deque_inv w' this bs xs \<and> deque_inv w' d as xs" by blast
  qed
  have c1: "\<exists>w1. FreeList (start ?d) (allocator ?d) w = Some (Ok () w1) \<and>
            deques w1 = deques w \<and>
            (\<forall>a \<in> set as. mem w1 a = None \<and> map_of (blocks w1) a = None) \<and>
            start (deques w1 d) \<noteq> 0 \<and> get_node w1 (start (deques w1 d)) = None \<and>
            (CopyList d (start (deques w1 d)) w1 = Some (Fault InvalidAccess) \<or>
             (\<exists>w'. CopyList d (start (deques w1 d)) w1 = Some (Thrown ''std::bad_alloc'' w')))"
    using f(1,2,4) st0 dead cl1 by (intro exI[of _ w1]) simp
  have c2: "copy_assign d d w = Some (Fault InvalidAccess) \<or>
          (\<exists>w'. copy_assign d d w = Some (Thrown ''std::bad_alloc'' w'))"
    using cl2 unfolding ca .
  show ?thesis by (intro conjI c1 c2 c3 c3' c4)
qed

theorem self_copy_assign_reads_freed_nodes_witness:
  "deque_inv world_1234 1 [4, 3, 1, 2] [1, 2, 3, 4] \<and> [4, 3, 1, 2] \<noteq> ([]::nat list) \<and>
   sizeof_node_t \<le> avail world_1234 \<and>
   map_of (blocks world_1234) 4 = Some sizeof_node_t \<and>
   map_of (blocks world_1234) 3 = Some sizeof_node_t \<and>
   map_of (blocks world_1234) 1 = Some sizeof_node_t \<and>
   map_of (blocks world_1234) 2 = Some sizeof_node_t \<and>
   copy_assign 1 1 world_1234 = Some (Fault InvalidAccess) \<and>
   (2::nat) \<noteq> 1 \<and> deque_inv world_1234 2 [] [] \<and>
   length [1, 2, 3, 4 :: int] * node_cost \<le> avail world_1234 \<and>
   (\<exists>w' bs. copy_assign 2 1 world_1234 = Some (Ok () w') \<and>
             deque_inv w' 2 bs [1, 2, 3, 4] \<and> deque_inv w' 1 [4, 3, 1, 2] [1, 2, 3, 4])"
proof -
  have ne: "[4, 3, 1, 2] \<noteq> ([]::nat list)" by simp
  have r: "sizeof_node_t \<le> avail world_1234"
    "length [1, 2, 3, 4 :: int] * node_cost \<le> avail world_1234"
    by (simp_all add: world_1234_avail node_cost_def sizeof_node_t_def sizeof_list_node_def)
  have b: "map_of (blocks world_1234) 4 = Some sizeof_node_t"
    "map_of (blocks world_1234) 3 = Some sizeof_node_t"
    "map_of (blocks world_1234) 1 = Some sizeof_node_t"
    "map_of (blocks world_1234) 2 = Some sizeof_node_t"
    by (simp_all add: world_1234_def)
  then have ball: "\<forall>a \<in> set [4, 3, 1, 2]. map_of (blocks world_1234) a = Some sizeof_node_t"
    by simp
  have n: "(2::nat) \<noteq> 1" by simp
  have d: "set [] \<inter> set [4, 3, 1, 2 :: nat] = {}" by simp
  note t = self_copy_assign_reads_freed_nodes[OF world_1234_inv ne, of 2 "[]" "[]"]
  have c1: "copy_assign 1 1 world_1234 = Some (Fault InvalidAccess)" using t ball by blast
  have c2: "\<exists>w' bs. copy_assign 2 1 world_1234 = Some (Ok () w') \<and>
             deque_inv w' 2 bs [1, 2, 3, 4] \<and> deque_inv w' 1 [4, 3, 1, 2] [1, 2, 3, 4]"
    using t n world_1234_inv2 d r(2) by blast
  show ?thesis by (intro conjI world_1234_inv world_1234_inv2 ne r b c1 n c2)
qed

end
